theory Spec2Isabelle
  imports Main
begin

section \<open>Rock, Paper, Scissors: shared library, server start-up and client prompt\<close>

text \<open>
  Go strings are byte sequences; they are modelled as \<open>string\<close> (a list of \<open>char\<close>, each
  \<open>char\<close> one byte). Runes (\<open>int32\<close>) are modelled as \<open>int\<close>: a decoded rune lies between
  0 and \<open>0x10FFFF\<close>, so adding or subtracting 3 cannot wrap. Score increments are -1, 0
  or 1. The round count is a 64-bit \<open>int\<close>; \<open>Atoi\<close> rejects what does not fit.
\<close>

subsection \<open>Round outcome (internal/rps/library.go)\<close>

text \<open>
  \<open>determineOutcome\<close> compares its arguments first; the \<open>switch\<close> on the first choice has no
  default branch, so for any other first argument both results keep Go's zero value.
\<close>

definition determineOutcome :: "string \<Rightarrow> string \<Rightarrow> int \<times> int" where
  "determineOutcome p1Choice p2Choice =
     (if p1Choice = p2Choice then (0, 0)
      else if p1Choice = ''rock'' then
        (if p2Choice = ''scissors'' then (1, - 1) else (- 1, 1))
      else if p1Choice = ''paper'' then
        (if p2Choice = ''rock'' then (1, - 1) else (- 1, 1))
      else if p1Choice = ''scissors'' then
        (if p2Choice = ''paper'' then (1, - 1) else (- 1, 1))
      else (0, 0))"

text \<open>\<open>outcomeString\<close>: the word sent to a player for a score increment.\<close>

definition outcomeString :: "int \<Rightarrow> string" where
  "outcomeString score =
     (if score = 1 then ''win'' else if score = - 1 then ''lose'' else ''draw'')"

text \<open>The three choices of the game, and the cyclic rule written as a relation.\<close>

definition choices :: "string set" where
  "choices = {''rock'', ''paper'', ''scissors''}"

definition beats :: "string \<Rightarrow> string \<Rightarrow> bool" where
  "beats a b \<longleftrightarrow>
     (a = ''rock'' \<and> b = ''scissors'') \<or>
     (a = ''scissors'' \<and> b = ''paper'') \<or>
     (a = ''paper'' \<and> b = ''rock'')"

subsection \<open>UTF-8 as the Go runtime reads and writes it\<close>

text \<open>
  \<open>Encrypt\<close> and \<open>Decrypt\<close> iterate with \<open>for _, char := range msg\<close> and write with
  \<open>strings.Builder.WriteRune\<close>. Both are fixed by the language and its \<open>unicode/utf8\<close>
  package: \<open>range\<close> decodes one UTF-8 sequence per step and yields \<open>U+FFFD\<close>, advancing by
  one byte, where the bytes are not a valid encoding; \<open>WriteRune\<close> appends the UTF-8
  encoding of a rune and appends the encoding of \<open>U+FFFD\<close> for a rune that is negative,
  a surrogate or above \<open>U+10FFFF\<close>. The bit operations of the package are written with
  \<open>div\<close> and \<open>mod\<close>: \<open>r >> 6\<close> is \<open>r div 64\<close>, \<open>r & 0x3F\<close> is \<open>r mod 64\<close>, and \<open>t | x\<close> is
  \<open>t + x\<close> where the set bits are disjoint.
\<close>

definition RuneError :: int where
  "RuneError = 0xFFFD"

text \<open>\<open>utf8.ValidRune\<close>: the runes that have an encoding of their own.\<close>

definition ValidRune :: "int \<Rightarrow> bool" where
  "ValidRune r \<longleftrightarrow> (0 \<le> r \<and> r < 0xD800) \<or> (0xDFFF < r \<and> r \<le> 0x10FFFF)"

text \<open>\<open>utf8.AppendRune\<close>, the bytes \<open>WriteRune\<close> appends.\<close>

definition AppendRune :: "int \<Rightarrow> string" where
  "AppendRune r =
     (if 0 \<le> r \<and> r \<le> 0x7F then [char_of r]
      else if 0 \<le> r \<and> r \<le> 0x7FF then
        [char_of (0xC0 + r div 64), char_of (0x80 + r mod 64)]
      else if (0x7FF < r \<and> r < 0xD800) \<or> (0xDFFF < r \<and> r \<le> 0xFFFF) then
        [char_of (0xE0 + r div 4096), char_of (0x80 + r div 64 mod 64),
         char_of (0x80 + r mod 64)]
      else if 0xFFFF < r \<and> r \<le> 0x10FFFF then
        [char_of (0xF0 + r div 262144), char_of (0x80 + r div 4096 mod 64),
         char_of (0x80 + r div 64 mod 64), char_of (0x80 + r mod 64)]
      else [CHR 0xEF, CHR 0xBF, CHR 0xBD])"

text \<open>
  \<open>utf8.DecodeRuneInString\<close>: the rune at the front of \<open>s\<close> and its width in bytes;
  \<open>(RuneError, 0)\<close> for the empty string and \<open>(RuneError, 1)\<close> for an invalid encoding.
  The lead byte fixes the width and the range accepted for the second byte.
\<close>

definition DecodeRune :: "string \<Rightarrow> int \<times> nat" where
  "DecodeRune s =
     (case s of
        [] \<Rightarrow> (RuneError, 0)
      | c0 # _ \<Rightarrow>
          let s0 = (of_char c0 :: int) in
          if s0 < 0x80 then (s0, 1)
          else if s0 < 0xC2 \<or> 0xF4 < s0 then (RuneError, 1)
          else
            let sz = (if s0 < 0xE0 then 2 else if s0 < 0xF0 then 3 else 4 :: nat);
                lo = (if s0 = 0xE0 then 0xA0 else if s0 = 0xF0 then 0x90 else 0x80 :: int);
                hi = (if s0 = 0xED then 0x9F else if s0 = 0xF4 then 0x8F else 0xBF :: int)
            in
              if length s < sz then (RuneError, 1)
              else
                let s1 = (of_char (s ! 1) :: int) in
                if s1 < lo \<or> hi < s1 then (RuneError, 1)
                else if sz \<le> 2 then (s0 mod 32 * 64 + s1 mod 64, 2)
                else
                  let s2 = (of_char (s ! 2) :: int) in
                  if s2 < 0x80 \<or> 0xBF < s2 then (RuneError, 1)
                  else if sz \<le> 3 then (s0 mod 16 * 4096 + s1 mod 64 * 64 + s2 mod 64, 3)
                  else
                    let s3 = (of_char (s ! 3) :: int) in
                    if s3 < 0x80 \<or> 0xBF < s3 then (RuneError, 1)
                    else (s0 mod 8 * 262144 + s1 mod 64 * 4096 + s2 mod 64 * 64 + s3 mod 64, 4))"

lemma DecodeRune_size_pos: "s \<noteq> [] \<Longrightarrow> 0 < snd (DecodeRune s)"
  by (cases s) (simp_all add: DecodeRune_def Let_def)

lemma drop_DecodeRune_shorter:
  "s \<noteq> [] \<Longrightarrow> (r, n) = DecodeRune s \<Longrightarrow> length (drop n s) < length s"
  using DecodeRune_size_pos [of s] by (cases "DecodeRune s") simp

text \<open>The runes a \<open>range\<close> loop over the string visits, in order.\<close>

function range_runes :: "string \<Rightarrow> int list" where
  "range_runes s =
     (if s = [] then []
      else case DecodeRune s of (r, n) \<Rightarrow> r # range_runes (drop n s))"
  by pat_completeness auto
termination
  by (relation "measure length") (simp_all add: drop_DecodeRune_shorter del: length_drop)

declare range_runes.simps [simp del]

text \<open>\<open>utf8.ValidString\<close>: no step of the decoder reports an invalid encoding.\<close>

function ValidString :: "string \<Rightarrow> bool" where
  "ValidString s =
     (if s = [] then True
      else case DecodeRune s of
             (r, n) \<Rightarrow> \<not> (r = RuneError \<and> n = 1) \<and> ValidString (drop n s))"
  by pat_completeness auto
termination
  by (relation "measure length") (simp_all add: drop_DecodeRune_shorter del: length_drop)

declare ValidString.simps [simp del]

text \<open>
  \<open>utf8.RuneStart\<close> and \<open>utf8.DecodeLastRuneInString\<close>: the last rune of \<open>s\<close> and its width.
  The loop of the library steps back from the byte before the last one to the nearest byte
  that is not a continuation byte, at most to \<open>lim\<close>.
\<close>

definition RuneStart :: "char \<Rightarrow> bool" where
  "RuneStart b \<longleftrightarrow> \<not> (0x80 \<le> (of_char b :: int) \<and> (of_char b :: int) \<le> 0xBF)"

function backToStart :: "string \<Rightarrow> int \<Rightarrow> int \<Rightarrow> int" where
  "backToStart s start lim =
     (if lim \<le> start then
        (if RuneStart (s ! nat start) then start else backToStart s (start - 1) lim)
      else start)"
  by pat_completeness auto
termination
  by (relation "measure (\<lambda>(s, start, lim). nat (start - lim + 1))") auto

declare backToStart.simps [simp del]

definition DecodeLastRune :: "string \<Rightarrow> int \<times> nat" where
  "DecodeLastRune s =
     (let endpos = int (length s) in
      if endpos = 0 then (RuneError, 0)
      else
        let r = (of_char (s ! nat (endpos - 1)) :: int) in
        if r < 0x80 then (r, 1)
        else
          let lim = max 0 (endpos - 4);
              start = backToStart s (endpos - 2) lim;
              start = (if start < 0 then 0 else start)
          in case DecodeRune (drop (nat start) s) of
               (r, sz) \<Rightarrow> if start + int sz \<noteq> endpos then (RuneError, 1) else (r, sz))"

lemma backToStart_le: "backToStart s start lim \<le> start"
proof (induction s start lim rule: backToStart.induct)
  case (1 s start lim)
  show ?case
  proof (cases "lim \<le> start \<and> \<not> RuneStart (s ! nat start)")
    case True
    with 1 have "backToStart s (start - 1) lim \<le> start - 1" by simp
    with True show ?thesis by (subst backToStart.simps) simp
  next
    case False
    then show ?thesis by (subst backToStart.simps) auto
  qed
qed

lemma DecodeLastRune_size_pos: "s \<noteq> [] \<Longrightarrow> 0 < snd (DecodeLastRune s)"
proof -
  assume ne: "s \<noteq> []"
  let ?e = "int (length s)"
  let ?b = "backToStart s (?e - 2) (max 0 (?e - 4))"
  let ?st = "if ?b < 0 then 0 else ?b"
  have "?b \<le> ?e - 2" by (rule backToStart_le)
  with ne have lt: "?st < ?e" by auto
  show ?thesis
  proof (cases "DecodeRune (drop (nat ?st) s)")
    case (Pair r sz)
    with lt show ?thesis
      by (auto simp: DecodeLastRune_def Let_def)
  qed
qed

lemma take_DecodeLastRune_shorter:
  "s \<noteq> [] \<Longrightarrow> (r, n) = DecodeLastRune s \<Longrightarrow> length s - n < length s"
  using DecodeLastRune_size_pos [of s] by (cases "DecodeLastRune s") auto

subsection \<open>White space (package \<open>unicode\<close> and \<open>strings.TrimSpace\<close>)\<close>

text \<open>
  \<open>unicode.IsSpace\<close>: in Latin-1 the characters tab, line feed, vertical tab, form feed,
  carriage return, space, \<open>U+0085\<close> and \<open>U+00A0\<close>; beyond it the characters of the
  property \<open>White_Space\<close>.
\<close>

definition IsSpace :: "int \<Rightarrow> bool" where
  "IsSpace r \<longleftrightarrow>
     (if 0 \<le> r \<and> r \<le> 0xFF then
        r = 0x09 \<or> r = 0x0A \<or> r = 0x0B \<or> r = 0x0C \<or> r = 0x0D \<or> r = 0x20 \<or>
        r = 0x85 \<or> r = 0xA0
      else
        r = 0x1680 \<or> (0x2000 \<le> r \<and> r \<le> 0x200A) \<or> r = 0x2028 \<or> r = 0x2029 \<or>
        r = 0x202F \<or> r = 0x205F \<or> r = 0x3000)"

text \<open>
  \<open>strings.TrimSpace\<close> removes the leading and the trailing white space of a string, as
  \<open>TrimLeftFunc\<close> and \<open>TrimRightFunc\<close> with \<open>unicode.IsSpace\<close> do: runes are taken off the
  front with \<open>DecodeRune\<close> and off the back with \<open>DecodeLastRune\<close> while they are white
  space.
\<close>

function TrimLeftSpace :: "string \<Rightarrow> string" where
  "TrimLeftSpace s =
     (if s = [] then []
      else case DecodeRune s of (r, n) \<Rightarrow> if IsSpace r then TrimLeftSpace (drop n s) else s)"
  by pat_completeness auto
termination
  by (relation "measure length") (simp_all add: drop_DecodeRune_shorter del: length_drop)

declare TrimLeftSpace.simps [simp del]

function TrimRightSpace :: "string \<Rightarrow> string" where
  "TrimRightSpace s =
     (if s = [] then []
      else case DecodeLastRune s of
             (r, n) \<Rightarrow> if IsSpace r then TrimRightSpace (take (length s - n) s) else s)"
  by pat_completeness auto
termination
  by (relation "measure length") (simp_all add: take_DecodeLastRune_shorter)

declare TrimRightSpace.simps [simp del]

definition TrimSpace :: "string \<Rightarrow> string" where
  "TrimSpace s = TrimRightSpace (TrimLeftSpace s)"

text \<open>
  A string of white space: well-formed UTF-8 whose characters are all white space.
\<close>

definition space_string :: "string \<Rightarrow> bool" where
  "space_string w \<longleftrightarrow> ValidString w \<and> list_all IsSpace (range_runes w)"

subsection \<open>The frame codec (internal/rps/library.go)\<close>

text \<open>
  The errors of the library and of the client prompt. \<open>InvalidHeaderError\<close> and
  \<open>InvalidFooterError\<close> carry the \<open>Received\<close> field of the Go structs.
\<close>

datatype error =
    ReadFailed
  | TooShort
  | InvalidHeaderError string
  | InvalidFooterError string
  | WriteFailed
  | FlushFailed
  | ReadChoiceFailed

text \<open>\<open>Encrypt\<close> and \<open>Decrypt\<close>: the loop over the runes, the builder as accumulator.\<close>

definition Encrypt :: "string \<Rightarrow> string" where
  "Encrypt msg =
     fold (\<lambda>char encrypted. encrypted @ AppendRune (char + 3)) (range_runes msg) []"

definition Decrypt :: "string \<Rightarrow> string" where
  "Decrypt msg =
     fold (\<lambda>char decrypted. decrypted @ AppendRune (char - 3)) (range_runes msg) []"

text \<open>The markers: \<open>U+26A0\<close> (warning sign) and \<open>U+2620\<close> (skull and crossbones) in UTF-8.\<close>

definition header :: string where
  "header = [CHR 0xE2, CHR 0x9A, CHR 0xA0]"

definition footer :: string where
  "footer = [CHR 0xE2, CHR 0x98, CHR 0xA0]"

text \<open>
  A connection, as far as the library uses it: the bytes that will arrive on it (until the
  peer closes or the read fails), the bytes written to it so far, and whether a write to it
  succeeds.
\<close>

record conn =
  incoming :: string
  outgoing :: string
  writable :: bool

text \<open>
  \<open>SendMessage\<close> writes the frame through a fresh \<open>bufio.Writer\<close> (4096 bytes). A frame
  that fits the buffer reaches the connection at \<open>Flush\<close>, a longer one already in
  \<open>WriteString\<close>; that decides which of the two errors a failing write gives.
\<close>

definition defaultBufSize :: nat where
  "defaultBufSize = 4096"

definition SendMessage :: "conn \<Rightarrow> string \<Rightarrow> error option \<times> conn" where
  "SendMessage c msg =
     (let encryptedMsg = Encrypt msg;
          fullMsg = header @ encryptedMsg @ footer @ [CHR 0x0A]
      in if writable c then (None, c\<lparr>outgoing := outgoing c @ fullMsg\<rparr>)
         else if defaultBufSize < length fullMsg then (Some WriteFailed, c)
         else (Some FlushFailed, c))"

text \<open>
  \<open>bufio.Reader.ReadString\<close>: the bytes up to and including the first delimiter; an error
  (\<open>None\<close>) when the input ends before a delimiter.
\<close>

definition ReadString :: "char \<Rightarrow> string \<Rightarrow> string option" where
  "ReadString delim s =
     (if delim \<in> set s then Some (takeWhile (\<lambda>c. c \<noteq> delim) s @ [delim]) else None)"

text \<open>
  \<open>ReceiveMessage\<close>. \<open>len(msg)\<close> counts bytes and \<open>msg[:1]\<close>, \<open>msg[len(msg)-1:]\<close> and
  \<open>msg[1 : len(msg)-1]\<close> slice by byte index.
\<close>

definition ReceiveMessage :: "conn \<Rightarrow> error + string" where
  "ReceiveMessage c =
     (case ReadString (CHR 0x0A) (incoming c) of
        None \<Rightarrow> Inl ReadFailed
      | Some line \<Rightarrow>
          let msg = TrimSpace line in
          if length msg < 2 then Inl TooShort
          else
            let hd1 = take 1 msg;
                ft1 = drop (length msg - 1) msg;
                content = take (length msg - 1 - 1) (drop 1 msg)
            in if hd1 \<noteq> header then Inl (InvalidHeaderError hd1)
               else if ft1 \<noteq> footer then Inl (InvalidFooterError ft1)
               else Inr (Decrypt content))"

text \<open>The connection on which a peer receives what was written to \<open>c\<close>.\<close>

definition peer :: "conn \<Rightarrow> conn" where
  "peer c = \<lparr>incoming = outgoing c, outgoing = [], writable = True\<rparr>"

definition fresh_conn :: conn where
  "fresh_conn = \<lparr>incoming = [], outgoing = [], writable = True\<rparr>"

text \<open>
  The frame property as the specification words it: \<open>payload'\<close> is the payload with every
  character shifted up by 3 code points when its characters are those of the payload, each
  plus 3.
\<close>

definition shifted_by_3 :: "string \<Rightarrow> string \<Rightarrow> bool" where
  "shifted_by_3 payload payload' \<longleftrightarrow>
     range_runes payload' = map (\<lambda>r. r + 3) (range_runes payload)"

subsection \<open>Server start-up (cmd/server/main.go)\<close>

text \<open>
  A buffered channel: its capacity and the values waiting in it. \<open>make(chan T, n)\<close> gives
  an empty channel of capacity \<open>n\<close>.
\<close>

record 'a chan =
  capacity :: nat
  queue :: "'a list"

definition make_chan :: "nat \<Rightarrow> 'a chan" where
  "make_chan n = \<lparr>capacity = n, queue = []\<rparr>"

text \<open>
  \<open>Server\<close> (library.go) and the \<open>GameManager\<close> that \<open>NewGameManager\<close> builds
  (cmd/server/main.go), with the fields that carry data; the wait group, the context and its
  cancel function are left out.
\<close>

record Server =
  Rounds :: int
  Port :: string
  WaitingPlayers :: "conn chan"
  Quit :: "unit chan"

definition NewServer :: "int \<Rightarrow> string \<Rightarrow> Server" where
  "NewServer rounds port =
     \<lparr>Rounds = rounds, Port = port, WaitingPlayers = make_chan 100, Quit = make_chan 1\<rparr>"

record GameManager =
  gm_WaitingPlayers :: "conn chan"
  gm_Rounds :: int

definition NewGameManager :: "int \<Rightarrow> GameManager" where
  "NewGameManager rounds = \<lparr>gm_WaitingPlayers = make_chan 100, gm_Rounds = rounds\<rparr>"

text \<open>
  \<open>strconv.Atoi\<close> for a 64-bit \<open>int\<close>: an optional sign, then one or more decimal digits,
  and a value that fits the type; anything else is an error (\<open>None\<close>).
\<close>

definition isDigit :: "char \<Rightarrow> bool" where
  "isDigit c \<longleftrightarrow> 0x30 \<le> (of_char c :: int) \<and> (of_char c :: int) \<le> 0x39"

definition Atoi :: "string \<Rightarrow> int option" where
  "Atoi s =
     (let neg = (s \<noteq> [] \<and> hd s = CHR ''-'');
          signed = (s \<noteq> [] \<and> (hd s = CHR ''-'' \<or> hd s = CHR ''+''));
          digits = (if signed then tl s else s)
      in if digits = [] \<or> \<not> list_all isDigit digits then None
         else
           let n = fold (\<lambda>ch n. n * 10 + (of_char ch - 0x30)) digits (0::int);
               v = (if neg then - n else n)
           in if v < - (2 ^ 63) \<or> 2 ^ 63 - 1 < v then None else Some v)"

text \<open>
  How \<open>main\<close> ends its argument handling: the usage line and \<open>os.Exit(1)\<close>, \<open>log.Fatalf\<close>
  (which exits with status 1), or the call of \<open>Start\<close> on the new server. \<open>os.Args\<close> is the
  program name followed by the positional arguments.
\<close>

datatype startup =
    UsageExit string int
  | Fatal int
  | Serving Server

definition main :: "string \<Rightarrow> string list \<Rightarrow> startup" where
  "main prog args =
     (if length (prog # args) < 3 then
        UsageExit (''Usage: '' @ prog @ '' <number_of_rounds> <port>'' @ [CHR 0x0A]) 1
      else
        case Atoi ((prog # args) ! 1) of
          None \<Rightarrow> Fatal 1
        | Some rounds \<Rightarrow>
            if rounds \<le> 0 then Fatal 1
            else Serving (NewServer rounds ((prog # args) ! 2)))"

subsection \<open>The client's prompt (cmd/client/main.go)\<close>

text \<open>
  \<open>strings.ToLower\<close>. A string of ASCII bytes is lowered byte by byte; any other string is
  mapped rune by rune with \<open>unicode.ToLower\<close>, which lowers ASCII letters itself and looks
  other runes up in the case tables of package \<open>unicode\<close>. Those tables are the parameter
  \<open>tbl\<close>. \<open>strings.Map\<close> drops a rune mapped to a negative value.
\<close>

definition lowerByte :: "char \<Rightarrow> char" where
  "lowerByte c =
     (if 0x41 \<le> (of_char c :: int) \<and> (of_char c :: int) \<le> 0x5A
      then char_of ((of_char c :: int) + 32) else c)"

definition unicode_ToLower :: "(int \<Rightarrow> int) \<Rightarrow> int \<Rightarrow> int" where
  "unicode_ToLower tbl r =
     (if r \<le> 0x7F then (if 0x41 \<le> r \<and> r \<le> 0x5A then r + 32 else r) else tbl r)"

definition Map_runes :: "(int \<Rightarrow> int) \<Rightarrow> string \<Rightarrow> string" where
  "Map_runes mapping s =
     concat (map (\<lambda>c. let r = mapping c in if 0 \<le> r then AppendRune r else [])
       (range_runes s))"

definition ToLower :: "(int \<Rightarrow> int) \<Rightarrow> string \<Rightarrow> string" where
  "ToLower tbl s =
     (if list_all (\<lambda>c. (of_char c :: int) < 0x80) s then map lowerByte s
      else Map_runes (unicode_ToLower tbl) s)"

text \<open>
  What the client acts on: the bytes still to come on standard input, the text printed so
  far, and the connection to the server.
\<close>

record world =
  stdin :: string
  stdout :: string
  link :: conn

definition prompt_text :: string where
  "prompt_text = ''Choose ('' @ [CHR 0x27] @ ''rock'' @ [CHR 0x27] @ '', '' @ [CHR 0x27] @
     ''paper'' @ [CHR 0x27] @ '', '' @ [CHR 0x27] @ ''scissors'' @ [CHR 0x27] @ ''): ''"

definition invalid_text :: string where
  "invalid_text = ''Invalid choice. Please enter '' @ [CHR 0x27] @ ''rock'' @ [CHR 0x27] @
     '', '' @ [CHR 0x27] @ ''paper'' @ [CHR 0x27] @ '', or '' @ [CHR 0x27] @ ''scissors'' @
     [CHR 0x27] @ ''.'' @ [CHR 0x0A]"

lemma ReadString_prefix:
  assumes "ReadString delim s = Some line"
  shows "line \<noteq> [] \<and> s = line @ drop (length line) s"
proof -
  let ?P = "\<lambda>c. c \<noteq> delim"
  from assms have d: "delim \<in> set s" and l: "line = takeWhile ?P s @ [delim]"
    by (auto simp: ReadString_def split: if_splits)
  from d have ne: "dropWhile ?P s \<noteq> []" by (simp add: dropWhile_eq_Nil_conv)
  then have "\<not> ?P (hd (dropWhile ?P s))" by (rule hd_dropWhile)
  with ne have "dropWhile ?P s = delim # tl (dropWhile ?P s)" by (cases "dropWhile ?P s") auto
  then have "s = line @ tl (dropWhile ?P s)"
    unfolding l by (metis append.assoc append_Cons append_Nil takeWhile_dropWhile_id)
  then show ?thesis using l by (metis append_eq_conv_conj snoc_eq_iff_butlast)
qed

lemma ReadString_shorter:
  "ReadString delim s = Some line \<Longrightarrow> length (drop (length line) s) < length s"
proof -
  assume "ReadString delim s = Some line"
  then have "line \<noteq> []" and "s = line @ drop (length line) s"
    by (simp_all add: ReadString_prefix)
  then have "length s = length line + length (drop (length line) s)" "0 < length line"
    by (metis length_append, simp)
  then show ?thesis by linarith
qed

function promptChoice :: "(int \<Rightarrow> int) \<Rightarrow> world \<Rightarrow> (error + string) \<times> world" where
  "promptChoice tbl w =
     (let w1 = w\<lparr>stdout := stdout w @ prompt_text\<rparr> in
      case ReadString (CHR 0x0A) (stdin w1) of
        None \<Rightarrow> (Inl ReadChoiceFailed, w1\<lparr>stdin := []\<rparr>)
      | Some line \<Rightarrow>
          let w2 = w1\<lparr>stdin := drop (length line) (stdin w1)\<rparr>;
              choice = TrimSpace (ToLower tbl line)
          in if choice \<noteq> ''rock'' \<and> choice \<noteq> ''paper'' \<and> choice \<noteq> ''scissors''
             then promptChoice tbl (w2\<lparr>stdout := stdout w2 @ invalid_text\<rparr>)
             else (Inr choice, w2))"
  by pat_completeness auto
termination
  by (relation "measure (\<lambda>(tbl, w). length (stdin w))")
     (simp_all add: ReadString_shorter del: length_drop)

declare promptChoice.simps [simp del]

text \<open>
  The body of \<open>gameLoop\<close> up to and including the send: \<open>promptChoice\<close>, the return of
  its error, then \<open>SendMessage\<close> on the client's connection with the choice.
\<close>

datatype loop_error = PromptFailed error | SendChoiceFailed error

definition gameLoop_request :: "(int \<Rightarrow> int) \<Rightarrow> world \<Rightarrow> loop_error option \<times> world" where
  "gameLoop_request tbl w =
     (case promptChoice tbl w of
        (Inl err, w1) \<Rightarrow> (Some (PromptFailed err), w1)
      | (Inr choice, w1) \<Rightarrow>
          (case SendMessage (link w1) choice of
             (Some err, c) \<Rightarrow> (Some (SendChoiceFailed err), w1\<lparr>link := c\<rparr>)
           | (None, c) \<Rightarrow> (None, w1\<lparr>link := c\<rparr>)))"

subsection \<open>Properties of the round outcome\<close>

lemma determineOutcome_same: "determineOutcome a a = (0, 0)"
  by (simp add: determineOutcome_def)

lemma determineOutcome_choices:
  assumes "a \<in> choices" and "b \<in> choices"
  shows "determineOutcome a b =
           (if a = b then (0, 0) else if beats a b then (1, - 1) else (- 1, 1))"
  using assms by (auto simp: choices_def determineOutcome_def beats_def)

lemma beats_asym: "a \<in> choices \<Longrightarrow> b \<in> choices \<Longrightarrow> a \<noteq> b \<Longrightarrow> beats b a \<longleftrightarrow> \<not> beats a b"
  by (auto simp: choices_def beats_def)

lemma determineOutcome_six:
    "determineOutcome ''rock'' ''scissors'' = (1, - 1)"
    "determineOutcome ''scissors'' ''paper'' = (1, - 1)"
    "determineOutcome ''paper'' ''rock'' = (1, - 1)"
    "determineOutcome ''scissors'' ''rock'' = (- 1, 1)"
    "determineOutcome ''paper'' ''scissors'' = (- 1, 1)"
    "determineOutcome ''rock'' ''paper'' = (- 1, 1)"
    by (simp_all add: determineOutcome_def)

lemma determineOutcome_swap:
  assumes "a \<in> choices" and "b \<in> choices" and "a \<noteq> b"
    and "determineOutcome a b = (x, y)"
  shows "y = - x \<and> determineOutcome b a = (y, x)"
proof -
  from assms(1,2) have "determineOutcome a b = (if a = b then (0, 0) else if beats a b then (1, - 1) else (- 1, 1))"
    by (rule determineOutcome_choices)
  moreover have "determineOutcome b a = (if b = a then (0, 0) else if beats b a then (1, - 1) else (- 1, 1))"
    by (rule determineOutcome_choices[OF assms(2) assms(1)])
  moreover from assms(1-3) have "beats b a \<longleftrightarrow> \<not> beats a b" by (rule beats_asym)
  ultimately show ?thesis using assms(3,4) by (cases "beats a b") auto
qed


text \<open>
  Claim C2. For every ordered pair of choices from rock, paper, scissors, \<open>determineOutcome\<close>
  gives the score increments of the cyclic rule (rock beats scissors, scissors beats paper,
  paper beats rock; winner +1, loser -1), gives (0, 0) for equal choices, and is
  antisymmetric: if \<open>determineOutcome a b = (x, y)\<close> for distinct valid \<open>a\<close>, \<open>b\<close> then
  \<open>y = - x\<close> and \<open>determineOutcome b a = (y, x)\<close>.
\<close>

theorem determineOutcome_cyclic_antisymmetric:
  "determineOutcome ''rock'' ''scissors'' = (1, - 1) \<and>
   determineOutcome ''scissors'' ''paper'' = (1, - 1) \<and>
   determineOutcome ''paper'' ''rock'' = (1, - 1) \<and>
   determineOutcome ''scissors'' ''rock'' = (- 1, 1) \<and>
   determineOutcome ''paper'' ''scissors'' = (- 1, 1) \<and>
   determineOutcome ''rock'' ''paper'' = (- 1, 1) \<and>
   (\<forall>a \<in> choices. determineOutcome a a = (0, 0)) \<and>
   (\<forall>a \<in> choices. \<forall>b \<in> choices.
      determineOutcome a b =
        (if a = b then (0, 0) else if beats a b then (1, - 1) else (- 1, 1))) \<and>
   (\<forall>a \<in> choices. \<forall>b \<in> choices. \<forall>x y.
      a \<noteq> b \<longrightarrow> determineOutcome a b = (x, y) \<longrightarrow>
        y = - x \<and> determineOutcome b a = (y, x))"
proof (intro conjI ballI allI impI)
  fix a b x y
  assume "a \<in> choices" "b \<in> choices" "a \<noteq> b" "determineOutcome a b = (x, y)"
  then have r: "y = - x \<and> determineOutcome b a = (y, x)"
    by (rule determineOutcome_swap)
  from r show "y = - x" ..
  from r show "determineOutcome b a = (y, x)" ..
qed (simp_all only: determineOutcome_six determineOutcome_same determineOutcome_choices)


theorem determineOutcome_cyclic_antisymmetric_witness:
  "''rock'' \<in> choices \<and> ''paper'' \<in> choices \<and> ''rock'' \<noteq> ''paper'' \<and>
   determineOutcome ''rock'' ''paper'' = (- 1, 1) \<and>
   determineOutcome ''paper'' ''rock'' = (1, - 1) \<and>
   determineOutcome ''rock'' ''rock'' = (0, 0)"
proof -
  have r: "''rock'' \<in> choices" and p: "''paper'' \<in> choices"
    by (simp_all add: choices_def)
  have ne: "''rock'' \<noteq> ''paper''" by simp
  note rule = determineOutcome_cyclic_antisymmetric
  from rule have e: "determineOutcome ''rock'' ''paper'' = (- 1, 1)"
    by (elim conjE)
  from rule have draw: "\<forall>a \<in> choices. determineOutcome a a = (0, 0)"
    by (elim conjE)
  from rule have anti: "\<forall>a \<in> choices. \<forall>b \<in> choices. \<forall>x y.
      a \<noteq> b \<longrightarrow> determineOutcome a b = (x, y) \<longrightarrow>
        y = - x \<and> determineOutcome b a = (y, x)"
    by (elim conjE)
  from draw r have d: "determineOutcome ''rock'' ''rock'' = (0, 0)" by (rule bspec)
  have "(1::int) = - (- 1) \<and> determineOutcome ''paper'' ''rock'' = (1, - 1)"
    by (rule anti [rule_format, OF r p ne e])
  then have f: "determineOutcome ''paper'' ''rock'' = (1, - 1)" ..
  from r p ne e f d show ?thesis by (intro conjI)
qed

text \<open>
  Claim C9. \<open>determineOutcome\<close> is total over arbitrary strings. Two equal strings, and any
  first argument outside rock, paper, scissors paired with a different second argument, give
  (0, 0); a valid first argument paired with any distinct string other than the choice it
  beats (for instance rock against lizard) scores the first player as losing: (-1, +1).
\<close>

theorem determineOutcome_arbitrary_strings:
  "(\<forall>a. determineOutcome a a = (0, 0)) \<and>
   (\<forall>a b. a \<notin> choices \<longrightarrow> a \<noteq> b \<longrightarrow> determineOutcome a b = (0, 0)) \<and>
   (\<forall>a b. a \<in> choices \<longrightarrow> a \<noteq> b \<longrightarrow> \<not> beats a b \<longrightarrow> determineOutcome a b = (- 1, 1)) \<and>
   determineOutcome ''rock'' ''lizard'' = (- 1, 1)"
proof (intro conjI allI impI)
  fix a b :: string
  assume "a \<notin> choices" "a \<noteq> b"
  then show "determineOutcome a b = (0, 0)"
    by (simp add: determineOutcome_def choices_def)
next
  fix a b :: string
  assume "a \<in> choices" "a \<noteq> b" "\<not> beats a b"
  then show "determineOutcome a b = (- 1, 1)"
    by (auto simp: determineOutcome_def choices_def beats_def)
qed (simp_all add: determineOutcome_def)

theorem determineOutcome_arbitrary_strings_witness:
  "''lizard'' \<notin> choices \<and> ''lizard'' \<noteq> ''rock'' \<and>
   determineOutcome ''lizard'' ''rock'' = (0, 0) \<and>
   ''paper'' \<in> choices \<and> ''paper'' \<noteq> ''spock'' \<and> \<not> beats ''paper'' ''spock'' \<and>
   determineOutcome ''paper'' ''spock'' = (- 1, 1)"
proof -
  have a: "''lizard'' \<notin> choices" "''lizard'' \<noteq> ''rock''"
    by (simp_all add: choices_def)
  have b: "''paper'' \<in> choices" "''paper'' \<noteq> ''spock''" "\<not> beats ''paper'' ''spock''"
    by (simp_all add: choices_def beats_def)
  note rule = determineOutcome_arbitrary_strings
  from rule have out: "\<forall>a b. a \<notin> choices \<longrightarrow> a \<noteq> b \<longrightarrow> determineOutcome a b = (0, 0)"
    by (elim conjE)
  from rule have lose: "\<forall>a b. a \<in> choices \<longrightarrow> a \<noteq> b \<longrightarrow> \<not> beats a b \<longrightarrow>
      determineOutcome a b = (- 1, 1)"
    by (elim conjE)
  have c: "determineOutcome ''lizard'' ''rock'' = (0, 0)"
    by (rule out [rule_format, OF a])
  have d: "determineOutcome ''paper'' ''spock'' = (- 1, 1)"
    by (rule lose [rule_format, OF b])
  from a b c d show ?thesis by (intro conjI)
qed

subsection \<open>Decoding what was encoded, and encoding what was decoded\<close>

lemma of_char_char_of_byte: "0 \<le> x \<Longrightarrow> x < 256 \<Longrightarrow> of_char (char_of (x::int)) = x"
  by simp

lemma of_char_int_bounds: "0 \<le> (of_char c :: int)" "(of_char c :: int) < 256"
proof -
  have "(of_char c :: int) = int (of_char c)" by (simp add: of_nat_of_char)
  moreover have "(of_char c :: nat) < 256" by simp
  ultimately show "0 \<le> (of_char c :: int)" "(of_char c :: int) < 256" by linarith+
qed

lemma lead2_mod: "0 \<le> q \<Longrightarrow> q < 32 \<Longrightarrow> (192 + q) mod 32 = (q::int)"
  by (simp add: mod_add_eq [symmetric, of 192])

lemma lead3_mod: "0 \<le> q \<Longrightarrow> q < 16 \<Longrightarrow> (224 + q) mod 16 = (q::int)"
  by (simp add: mod_add_eq [symmetric, of 224])

lemma lead4_mod: "0 \<le> q \<Longrightarrow> q < 8 \<Longrightarrow> (240 + q) mod 8 = (q::int)"
  by (simp add: mod_add_eq [symmetric, of 240])

lemma cont_mod: "0 \<le> m \<Longrightarrow> m < 64 \<Longrightarrow> (128 + m) mod 64 = (m::int)"
  by (simp add: mod_add_eq [symmetric, of 128])

lemma div_4096: "(r::int) div 4096 = r div 64 div 64"
  by (simp add: zdiv_zmult2_eq)

lemma div_262144: "(r::int) div 262144 = r div 64 div 64 div 64"
  by (simp add: zdiv_zmult2_eq)

lemma split2: "(r::int) = r div 64 * 64 + r mod 64"
  by simp

lemma split3: "(r::int) = r div 4096 * 4096 + r div 64 mod 64 * 64 + r mod 64"
proof -
  have "r = r div 64 * 64 + r mod 64" by simp
  moreover have "r div 64 = r div 64 div 64 * 64 + r div 64 mod 64" by simp
  ultimately show ?thesis unfolding div_4096 by linarith
qed

lemma split4:
  "(r::int) = r div 262144 * 262144 + r div 4096 mod 64 * 4096 + r div 64 mod 64 * 64 + r mod 64"
proof -
  have "r = r div 64 * 64 + r mod 64" by simp
  moreover have "r div 64 = r div 64 div 64 * 64 + r div 64 mod 64" by simp
  moreover have "r div 64 div 64 = r div 64 div 64 div 64 * 64 + r div 64 div 64 mod 64" by simp
  ultimately show ?thesis unfolding div_4096 div_262144 by linarith
qed

lemma div64: "0 \<le> m \<Longrightarrow> m < 64 \<Longrightarrow> (x * 64 + m) div 64 = (x::int)"
  by simp

lemma mod64: "0 \<le> m \<Longrightarrow> m < 64 \<Longrightarrow> (x * 64 + m) mod 64 = (m::int)"
  by simp

text \<open>The decoder on a string whose first bytes are given by their values.\<close>

lemma DecodeRune_1:
  "0 \<le> b \<Longrightarrow> b < 0x80 \<Longrightarrow> DecodeRune (char_of b # t) = (b, 1)"
  by (simp add: DecodeRune_def)

lemma DecodeRune_2:
  assumes "0xC2 \<le> b0" "b0 \<le> 0xDF" "0x80 \<le> b1" "b1 \<le> 0xBF"
  shows "DecodeRune (char_of b0 # char_of b1 # t) = (b0 mod 32 * 64 + b1 mod 64, 2)"
proof -
  from assms have "of_char (char_of b0) = b0" "of_char (char_of b1) = b1"
    by (simp_all add: of_char_char_of_byte)
  with assms show ?thesis
    by (simp add: DecodeRune_def Let_def)
qed

lemma DecodeRune_3:
  assumes "0xE0 \<le> b0" "b0 \<le> 0xEF"
    and "(if b0 = 0xE0 then 0xA0 else 0x80) \<le> b1" "b1 \<le> (if b0 = 0xED then 0x9F else 0xBF)"
    and "0x80 \<le> b2" "b2 \<le> 0xBF"
  shows "DecodeRune (char_of b0 # char_of b1 # char_of b2 # t) =
           (b0 mod 16 * 4096 + b1 mod 64 * 64 + b2 mod 64, 3)"
proof -
  from assms have b1: "0x80 \<le> b1" "b1 \<le> 0xBF" by (auto split: if_splits)
  with assms have "of_char (char_of b0) = b0" "of_char (char_of b1) = b1"
    "of_char (char_of b2) = b2"
    by (simp_all add: of_char_char_of_byte)
  with assms b1 show ?thesis
    by (auto simp add: DecodeRune_def Let_def split: if_splits)
qed

lemma DecodeRune_4:
  assumes "0xF0 \<le> b0" "b0 \<le> 0xF4"
    and "(if b0 = 0xF0 then 0x90 else 0x80) \<le> b1" "b1 \<le> (if b0 = 0xF4 then 0x8F else 0xBF)"
    and "0x80 \<le> b2" "b2 \<le> 0xBF" and "0x80 \<le> b3" "b3 \<le> 0xBF"
  shows "DecodeRune (char_of b0 # char_of b1 # char_of b2 # char_of b3 # t) =
           (b0 mod 8 * 262144 + b1 mod 64 * 4096 + b2 mod 64 * 64 + b3 mod 64, 4)"
proof -
  from assms have b1: "0x80 \<le> b1" "b1 \<le> 0xBF" by (auto split: if_splits)
  with assms have "of_char (char_of b0) = b0" "of_char (char_of b1) = b1"
    "of_char (char_of b2) = b2" "of_char (char_of b3) = b3"
    by (simp_all add: of_char_char_of_byte)
  with assms b1 show ?thesis
    by (simp add: DecodeRune_def Let_def)
qed

text \<open>The encoder on a rune given by its six-bit groups.\<close>

lemma AppendRune_2:
  assumes "2 \<le> q" "q < 32" "0 \<le> m" "m < 64"
  shows "AppendRune (q * 64 + m) = [char_of (0xC0 + q), char_of (0x80 + m)]"
proof -
  from assms have "0x7F < q * 64 + m" "q * 64 + m \<le> 0x7FF" by linarith+
  with assms show ?thesis by (simp add: AppendRune_def)
qed

lemma AppendRune_3_gen:
  "0x7FF < r \<Longrightarrow> r \<le> 0xFFFF \<Longrightarrow> r < 0xD800 \<or> 0xDFFF < r \<Longrightarrow>
   AppendRune r =
     [char_of (0xE0 + r div 4096), char_of (0x80 + r div 64 mod 64), char_of (0x80 + r mod 64)]"
  by (auto simp: AppendRune_def)

lemma AppendRune_4_gen:
  "0xFFFF < r \<Longrightarrow> r \<le> 0x10FFFF \<Longrightarrow>
   AppendRune r =
     [char_of (0xF0 + r div 262144), char_of (0x80 + r div 4096 mod 64),
      char_of (0x80 + r div 64 mod 64), char_of (0x80 + r mod 64)]"
  by (auto simp: AppendRune_def)

lemma three_byte_range:
  assumes "0 \<le> q" "q < 16" "0 \<le> p" "p < 64" "0 \<le> m" "m < 64"
    and "q = 0 \<longrightarrow> 32 \<le> p" and "q = 13 \<longrightarrow> p < 32"
  shows "0x7FF < q * 4096 + p * 64 + m" "q * 4096 + p * 64 + m \<le> 0xFFFF"
    "q * 4096 + p * 64 + m < 0xD800 \<or> 0xDFFF < q * 4096 + p * 64 + (m::int)"
proof -
  let ?r = "q * 4096 + p * 64 + m"
  show "0x7FF < ?r"
  proof (cases "q = 0")
    case True
    with assms have "32 \<le> p" by simp
    with True assms show ?thesis by linarith
  next
    case False
    with assms have "1 \<le> q" by linarith
    with assms show ?thesis by linarith
  qed
  from assms show "?r \<le> 0xFFFF" by linarith
  show "?r < 0xD800 \<or> 0xDFFF < ?r"
  proof (cases "q = 13")
    case True
    with assms have "p < 32" by simp
    with True assms show ?thesis by linarith
  next
    case False
    then have "q \<le> 12 \<or> 14 \<le> q" by linarith
    with assms show ?thesis by linarith
  qed
qed

lemma four_byte_range:
  assumes "0 \<le> q" "q \<le> 4" "0 \<le> k" "k < 64" "0 \<le> p" "p < 64" "0 \<le> m" "m < 64"
    and "q = 0 \<longrightarrow> 16 \<le> k" and "q = 4 \<longrightarrow> k < 16"
  shows "0xFFFF < q * 262144 + k * 4096 + p * 64 + m"
    "q * 262144 + k * 4096 + p * 64 + (m::int) \<le> 0x10FFFF"
proof -
  let ?r = "q * 262144 + k * 4096 + p * 64 + m"
  show "0xFFFF < ?r"
  proof (cases "q = 0")
    case True
    with assms have "16 \<le> k" by simp
    with True assms show ?thesis by linarith
  next
    case False
    with assms have "1 \<le> q" by linarith
    with assms show ?thesis by linarith
  qed
  show "?r \<le> 0x10FFFF"
  proof (cases "q = 4")
    case True
    with assms have "k < 16" by simp
    with True assms show ?thesis by linarith
  next
    case False
    with assms have "q \<le> 3" by linarith
    with assms show ?thesis by linarith
  qed
qed

lemma AppendRune_3:
  assumes "0 \<le> q" "q < 16" "0 \<le> p" "p < 64" "0 \<le> m" "m < 64"
    and "q = 0 \<longrightarrow> 32 \<le> p" and "q = 13 \<longrightarrow> p < 32"
  shows "AppendRune (q * 4096 + p * 64 + m) =
           [char_of (0xE0 + q), char_of (0x80 + p), char_of (0x80 + m)]"
proof -
  let ?r = "q * 4096 + p * 64 + m"
  have r: "?r = (q * 64 + p) * 64 + m" by simp
  note b = three_byte_range [OF assms]
  from assms have d: "?r div 64 = q * 64 + p" "?r mod 64 = m"
    unfolding r by (simp_all only: div64 mod64)
  from assms d have e: "?r div 4096 = q" "?r div 64 mod 64 = p"
    unfolding div_4096 by (simp_all only: div64 mod64)
  show ?thesis
    by (simp only: AppendRune_3_gen [OF b] e d(2))
qed

lemma AppendRune_4:
  assumes "0 \<le> q" "q \<le> 4" "0 \<le> k" "k < 64" "0 \<le> p" "p < 64" "0 \<le> m" "m < 64"
    and "q = 0 \<longrightarrow> 16 \<le> k" and "q = 4 \<longrightarrow> k < 16"
  shows "AppendRune (q * 262144 + k * 4096 + p * 64 + m) =
           [char_of (0xF0 + q), char_of (0x80 + k), char_of (0x80 + p), char_of (0x80 + m)]"
proof -
  let ?r = "q * 262144 + k * 4096 + p * 64 + m"
  have r: "?r = ((q * 64 + k) * 64 + p) * 64 + m" by simp
  note b = four_byte_range [OF assms]
  from assms have d: "?r div 64 = (q * 64 + k) * 64 + p" "?r mod 64 = m"
    unfolding r by (simp_all only: div64 mod64)
  from assms d have e: "?r div 64 div 64 = q * 64 + k" "?r div 64 mod 64 = p"
    by (simp_all only: div64 mod64)
  from assms e have f: "?r div 262144 = q" "?r div 4096 mod 64 = k"
    unfolding div_4096 div_262144 by (simp_all only: div64 mod64)
  show ?thesis
    by (simp only: AppendRune_4_gen [OF b] f e(2) d(2))
qed

lemma DecodeRune_AppendRune:
  assumes "ValidRune r"
  shows "DecodeRune (AppendRune r @ t) = (r, length (AppendRune r))"
proof -
  consider (one) "0 \<le> r" "r \<le> 0x7F"
    | (two) "0x7F < r" "r \<le> 0x7FF"
    | (three) "0x7FF < r" "r \<le> 0xFFFF" "r < 0xD800 \<or> 0xDFFF < r"
    | (four) "0xFFFF < r" "r \<le> 0x10FFFF"
    using assms unfolding ValidRune_def by atomize_elim linarith
  then show ?thesis
  proof cases
    case one
    then show ?thesis by (simp add: AppendRune_def DecodeRune_1)
  next
    case two
    define q where "q = r div 64"
    define m where "m = r mod 64"
    have r: "r = q * 64 + m" unfolding q_def m_def by (rule split2)
    have m: "0 \<le> m" "m < 64" by (simp_all add: m_def)
    from two r m have q: "2 \<le> q" "q < 32" by linarith+
    have enc: "AppendRune r = [char_of (0xC0 + q), char_of (0x80 + m)]"
      using two by (simp add: AppendRune_def q_def m_def)
    have "DecodeRune (char_of (0xC0 + q) # char_of (0x80 + m) # t) =
            ((0xC0 + q) mod 32 * 64 + (0x80 + m) mod 64, 2)"
      using q m by (intro DecodeRune_2) linarith+
    moreover have "(0xC0 + q) mod 32 * 64 + (0x80 + m) mod 64 = r"
      using q m by (simp add: lead2_mod cont_mod r)
    ultimately show ?thesis by (simp add: enc)
  next
    case three
    define q where "q = r div 4096"
    define p where "p = r div 64 mod 64"
    define m where "m = r mod 64"
    have r: "r = q * 4096 + p * 64 + m" unfolding q_def p_def m_def by (rule split3)
    have m: "0 \<le> m" "m < 64" and p: "0 \<le> p" "p < 64"
      by (simp_all add: m_def p_def)
    from three r m p have q: "0 \<le> q" "q < 16" by linarith+
    have enc: "AppendRune r = [char_of (0xE0 + q), char_of (0x80 + p), char_of (0x80 + m)]"
      using three by (auto simp: AppendRune_def q_def p_def m_def)
    have q0: "q = 0 \<Longrightarrow> 32 \<le> p" using three r m p by linarith
    have q13: "q = 13 \<Longrightarrow> p < 32" using three r m p by linarith
    have "DecodeRune (char_of (0xE0 + q) # char_of (0x80 + p) # char_of (0x80 + m) # t) =
            ((0xE0 + q) mod 16 * 4096 + (0x80 + p) mod 64 * 64 + (0x80 + m) mod 64, 3)"
      using q m p q0 q13 by (intro DecodeRune_3) auto
    moreover have "(0xE0 + q) mod 16 * 4096 + (0x80 + p) mod 64 * 64 + (0x80 + m) mod 64 = r"
      using q m p by (simp add: lead3_mod cont_mod r)
    ultimately show ?thesis by (simp add: enc)
  next
    case four
    define q where "q = r div 262144"
    define k where "k = r div 4096 mod 64"
    define p where "p = r div 64 mod 64"
    define m where "m = r mod 64"
    have r: "r = q * 262144 + k * 4096 + p * 64 + m"
      unfolding q_def k_def p_def m_def by (rule split4)
    have m: "0 \<le> m" "m < 64" and p: "0 \<le> p" "p < 64" and k: "0 \<le> k" "k < 64"
      by (simp_all add: m_def p_def k_def)
    from four r m p k have q: "0 \<le> q" "q \<le> 4" by linarith+
    have enc: "AppendRune r =
        [char_of (0xF0 + q), char_of (0x80 + k), char_of (0x80 + p), char_of (0x80 + m)]"
      using four by (auto simp: AppendRune_def q_def k_def p_def m_def)
    have q0: "q = 0 \<Longrightarrow> 16 \<le> k" using four r m p k by linarith
    have q4: "q = 4 \<Longrightarrow> k < 16" using four r m p k by linarith
    have "DecodeRune (char_of (0xF0 + q) # char_of (0x80 + k) # char_of (0x80 + p) #
             char_of (0x80 + m) # t) =
            ((0xF0 + q) mod 8 * 262144 + (0x80 + k) mod 64 * 4096 + (0x80 + p) mod 64 * 64 +
             (0x80 + m) mod 64, 4)"
      using q m p k q0 q4 by (intro DecodeRune_4) auto
    moreover have "(0xF0 + q) mod 8 * 262144 + (0x80 + k) mod 64 * 4096 +
        (0x80 + p) mod 64 * 64 + (0x80 + m) mod 64 = r"
      using q m p k by (simp add: lead4_mod cont_mod r)
    ultimately show ?thesis by (simp add: enc)
  qed
qed

text \<open>The decoder unfolded for each class of lead byte.\<close>

lemma DecodeRune_lead1:
  "(of_char c0 :: int) < 0x80 \<Longrightarrow> DecodeRune (c0 # t) = (of_char c0, 1)"
  by (simp add: DecodeRune_def)

lemma DecodeRune_leadbad:
  "0x80 \<le> (of_char c0 :: int) \<Longrightarrow> (of_char c0 :: int) < 0xC2 \<or> 0xF4 < (of_char c0 :: int) \<Longrightarrow>
   DecodeRune (c0 # t) = (RuneError, 1)"
  by (auto simp: DecodeRune_def Let_def)

lemma DecodeRune_lead2:
  "0xC2 \<le> (of_char c0 :: int) \<Longrightarrow> (of_char c0 :: int) < 0xE0 \<Longrightarrow>
   DecodeRune (c0 # t) =
     (case t of
        [] \<Rightarrow> (RuneError, 1)
      | c1 # _ \<Rightarrow>
          if (of_char c1 :: int) < 0x80 \<or> 0xBF < (of_char c1 :: int) then (RuneError, 1)
          else (of_char c0 mod 32 * 64 + of_char c1 mod 64, 2))"
  by (simp add: DecodeRune_def Let_def split: list.splits)

lemma DecodeRune_lead3:
  "0xE0 \<le> (of_char c0 :: int) \<Longrightarrow> (of_char c0 :: int) < 0xF0 \<Longrightarrow>
   DecodeRune (c0 # t) =
     (case t of
        c1 # c2 # _ \<Rightarrow>
          if (of_char c1 :: int) < (if (of_char c0 :: int) = 0xE0 then 0xA0 else 0x80) \<or>
             (if (of_char c0 :: int) = 0xED then 0x9F else 0xBF) < (of_char c1 :: int)
          then (RuneError, 1)
          else if (of_char c2 :: int) < 0x80 \<or> 0xBF < (of_char c2 :: int) then (RuneError, 1)
          else (of_char c0 mod 16 * 4096 + of_char c1 mod 64 * 64 + of_char c2 mod 64, 3)
      | _ \<Rightarrow> (RuneError, 1))"
  by (simp add: DecodeRune_def Let_def split: list.splits)

lemma DecodeRune_lead4:
  "0xF0 \<le> (of_char c0 :: int) \<Longrightarrow> (of_char c0 :: int) \<le> 0xF4 \<Longrightarrow>
   DecodeRune (c0 # t) =
     (case t of
        c1 # c2 # c3 # _ \<Rightarrow>
          if (of_char c1 :: int) < (if (of_char c0 :: int) = 0xF0 then 0x90 else 0x80) \<or>
             (if (of_char c0 :: int) = 0xF4 then 0x8F else 0xBF) < (of_char c1 :: int)
          then (RuneError, 1)
          else if (of_char c2 :: int) < 0x80 \<or> 0xBF < (of_char c2 :: int) then (RuneError, 1)
          else if (of_char c3 :: int) < 0x80 \<or> 0xBF < (of_char c3 :: int) then (RuneError, 1)
          else (of_char c0 mod 8 * 262144 + of_char c1 mod 64 * 4096 +
                of_char c2 mod 64 * 64 + of_char c3 mod 64, 4)
      | _ \<Rightarrow> (RuneError, 1))"
  by (simp add: DecodeRune_def Let_def split: list.splits)

text \<open>
  A successful decoding step, case by case: the bytes read, as six-bit groups, and the rune.
\<close>

lemma DecodeRune_valid_cases [consumes 3, case_names one two three four]:
  assumes dec: "DecodeRune s = (r, n)" and ok: "\<not> (r = RuneError \<and> n = 1)" and ne: "s \<noteq> []"
  obtains
    (one) b t where "s = char_of b # t" "0 \<le> b" "b < 0x80" "r = b" "n = 1"
  | (two) q m t where "s = char_of (0xC0 + q) # char_of (0x80 + m) # t"
      "2 \<le> q" "q < 32" "0 \<le> m" "m < 64" "r = q * 64 + m" "n = 2"
  | (three) q p m t where
      "s = char_of (0xE0 + q) # char_of (0x80 + p) # char_of (0x80 + m) # t"
      "0 \<le> q" "q < 16" "0 \<le> p" "p < 64" "0 \<le> m" "m < 64"
      "q = 0 \<longrightarrow> 32 \<le> p" "q = 13 \<longrightarrow> p < 32"
      "r = q * 4096 + p * 64 + m" "n = 3"
  | (four) q k p m t where
      "s = char_of (0xF0 + q) # char_of (0x80 + k) # char_of (0x80 + p) # char_of (0x80 + m) # t"
      "0 \<le> q" "q \<le> 4" "0 \<le> k" "k < 64" "0 \<le> p" "p < 64" "0 \<le> m" "m < 64"
      "q = 0 \<longrightarrow> 16 \<le> k" "q = 4 \<longrightarrow> k < 16"
      "r = q * 262144 + k * 4096 + p * 64 + m" "n = 4"
proof -
  from ne obtain c0 t0 where s: "s = c0 # t0" by (cases s) auto
  define b0 where "b0 = (of_char c0 :: int)"
  have b0: "0 \<le> b0" "b0 < 256" and c0: "c0 = char_of b0"
    by (simp_all add: b0_def of_char_int_bounds)
  consider (A) "b0 < 0x80" | (B) "0x80 \<le> b0" "b0 < 0xC2 \<or> 0xF4 < b0"
    | (C) "0xC2 \<le> b0" "b0 < 0xE0" | (D) "0xE0 \<le> b0" "b0 < 0xF0"
    | (E) "0xF0 \<le> b0" "b0 \<le> 0xF4"
    by atomize_elim linarith
  then show thesis
  proof cases
    case A
    with dec s have "r = b0" "n = 1" by (simp_all add: DecodeRune_lead1 b0_def)
    with A b0 c0 s show thesis by (intro one [of b0 t0]) simp_all
  next
    case B
    with dec s have "r = RuneError" "n = 1"
      by (simp_all add: DecodeRune_leadbad b0_def)
    with ok show thesis by simp
  next
    case C
    from dec C have e: "(case t0 of
        [] \<Rightarrow> (RuneError, 1)
      | c1 # _ \<Rightarrow>
          if (of_char c1 :: int) < 0x80 \<or> 0xBF < (of_char c1 :: int) then (RuneError, 1)
          else (b0 mod 32 * 64 + of_char c1 mod 64, 2)) = (r, n)"
      unfolding s b0_def by (simp add: DecodeRune_lead2)
    from e ok obtain c1 t1 where t0: "t0 = c1 # t1" by (cases t0) auto
    define b1 where "b1 = (of_char c1 :: int)"
    have c1: "c1 = char_of b1" by (simp add: b1_def)
    from e ok have b1: "0x80 \<le> b1" "b1 \<le> 0xBF" and rn: "r = b0 mod 32 * 64 + b1 mod 64" "n = 2"
      unfolding t0 b1_def by (auto split: if_splits)
    define q where "q = b0 - 0xC0"
    define m where "m = b1 - 0x80"
    have q: "2 \<le> q" "q < 32" and m: "0 \<le> m" "m < 64"
      using C b1 by (simp_all add: q_def m_def)
    have "b0 mod 32 = q" using lead2_mod [of q] q by (simp add: q_def)
    moreover have "b1 mod 64 = m" using cont_mod [of m] m by (simp add: m_def)
    ultimately have "r = q * 64 + m" using rn by simp
    moreover have "s = char_of (0xC0 + q) # char_of (0x80 + m) # t1"
      by (simp add: s t0 c0 c1 q_def m_def)
    ultimately show thesis using q m rn(2) by (intro two [of q m t1])
  next
    case D
    from dec D have e: "(case t0 of
        c1 # c2 # _ \<Rightarrow>
          if (of_char c1 :: int) < (if b0 = 0xE0 then 0xA0 else 0x80) \<or>
             (if b0 = 0xED then 0x9F else 0xBF) < (of_char c1 :: int)
          then (RuneError, 1)
          else if (of_char c2 :: int) < 0x80 \<or> 0xBF < (of_char c2 :: int) then (RuneError, 1)
          else (b0 mod 16 * 4096 + of_char c1 mod 64 * 64 + of_char c2 mod 64, 3)
      | _ \<Rightarrow> (RuneError, 1)) = (r, n)"
      unfolding s b0_def by (simp add: DecodeRune_lead3)
    from e ok obtain c1 c2 t2 where t0: "t0 = c1 # c2 # t2"
      by (cases t0; cases "tl t0") auto
    define b1 where "b1 = (of_char c1 :: int)"
    define b2 where "b2 = (of_char c2 :: int)"
    have c1: "c1 = char_of b1" and c2: "c2 = char_of b2" by (simp_all add: b1_def b2_def)
    from e ok have b1: "(if b0 = 0xE0 then 0xA0 else 0x80) \<le> b1"
        "b1 \<le> (if b0 = 0xED then 0x9F else 0xBF)"
      and b2: "0x80 \<le> b2" "b2 \<le> 0xBF"
      and rn: "r = b0 mod 16 * 4096 + b1 mod 64 * 64 + b2 mod 64" "n = 3"
      unfolding t0 b1_def b2_def by (auto split: if_splits)
    define q where "q = b0 - 0xE0"
    define p where "p = b1 - 0x80"
    define m where "m = b2 - 0x80"
    have q: "0 \<le> q" "q < 16" and p: "0 \<le> p" "p < 64" and m: "0 \<le> m" "m < 64"
      using D b1 b2 by (auto simp: q_def p_def m_def split: if_splits)
    have q0: "q = 0 \<longrightarrow> 32 \<le> p" and q13: "q = 13 \<longrightarrow> p < 32"
      using b1 by (auto simp: q_def p_def split: if_splits)
    have "b0 mod 16 = q" using lead3_mod [of q] q by (simp add: q_def)
    moreover have "b1 mod 64 = p" using cont_mod [of p] p by (simp add: p_def)
    moreover have "b2 mod 64 = m" using cont_mod [of m] m by (simp add: m_def)
    ultimately have "r = q * 4096 + p * 64 + m" using rn by simp
    moreover have "s = char_of (0xE0 + q) # char_of (0x80 + p) # char_of (0x80 + m) # t2"
      by (simp add: s t0 c0 c1 c2 q_def p_def m_def)
    ultimately show thesis using q p m q0 q13 rn(2) by (intro three [of q p m t2])
  next
    case E
    from dec E have e: "(case t0 of
        c1 # c2 # c3 # _ \<Rightarrow>
          if (of_char c1 :: int) < (if b0 = 0xF0 then 0x90 else 0x80) \<or>
             (if b0 = 0xF4 then 0x8F else 0xBF) < (of_char c1 :: int)
          then (RuneError, 1)
          else if (of_char c2 :: int) < 0x80 \<or> 0xBF < (of_char c2 :: int) then (RuneError, 1)
          else if (of_char c3 :: int) < 0x80 \<or> 0xBF < (of_char c3 :: int) then (RuneError, 1)
          else (b0 mod 8 * 262144 + of_char c1 mod 64 * 4096 +
                of_char c2 mod 64 * 64 + of_char c3 mod 64, 4)
      | _ \<Rightarrow> (RuneError, 1)) = (r, n)"
      unfolding s b0_def by (simp add: DecodeRune_lead4)
    from e ok obtain c1 c2 c3 t3 where t0: "t0 = c1 # c2 # c3 # t3"
      by (cases t0; cases "tl t0"; cases "tl (tl t0)") auto
    define b1 where "b1 = (of_char c1 :: int)"
    define b2 where "b2 = (of_char c2 :: int)"
    define b3 where "b3 = (of_char c3 :: int)"
    have c1: "c1 = char_of b1" and c2: "c2 = char_of b2" and c3: "c3 = char_of b3"
      by (simp_all add: b1_def b2_def b3_def)
    from e ok have b1: "(if b0 = 0xF0 then 0x90 else 0x80) \<le> b1"
        "b1 \<le> (if b0 = 0xF4 then 0x8F else 0xBF)"
      and b2: "0x80 \<le> b2" "b2 \<le> 0xBF" and b3: "0x80 \<le> b3" "b3 \<le> 0xBF"
      and rn: "r = b0 mod 8 * 262144 + b1 mod 64 * 4096 + b2 mod 64 * 64 + b3 mod 64" "n = 4"
      unfolding t0 b1_def b2_def b3_def by (auto split: if_splits)
    define q where "q = b0 - 0xF0"
    define k where "k = b1 - 0x80"
    define p where "p = b2 - 0x80"
    define m where "m = b3 - 0x80"
    have q: "0 \<le> q" "q \<le> 4" and k: "0 \<le> k" "k < 64" and p: "0 \<le> p" "p < 64"
      and m: "0 \<le> m" "m < 64"
      using E b1 b2 b3 by (auto simp: q_def k_def p_def m_def split: if_splits)
    have q0: "q = 0 \<longrightarrow> 16 \<le> k" and q4: "q = 4 \<longrightarrow> k < 16"
      using b1 by (auto simp: q_def k_def split: if_splits)
    have "b0 mod 8 = q" using lead4_mod [of q] q by (simp add: q_def)
    moreover have "b1 mod 64 = k" using cont_mod [of k] k by (simp add: k_def)
    moreover have "b2 mod 64 = p" using cont_mod [of p] p by (simp add: p_def)
    moreover have "b3 mod 64 = m" using cont_mod [of m] m by (simp add: m_def)
    ultimately have "r = q * 262144 + k * 4096 + p * 64 + m" using rn by simp
    moreover have "s = char_of (0xF0 + q) # char_of (0x80 + k) # char_of (0x80 + p) #
        char_of (0x80 + m) # t3"
      by (simp add: s t0 c0 c1 c2 c3 q_def k_def p_def m_def)
    ultimately show thesis using q k p m q0 q4 rn(2) by (intro four [of q k p m t3])
  qed
qed

lemma AppendRune_DecodeRune:
  assumes "DecodeRune s = (r, n)" and "\<not> (r = RuneError \<and> n = 1)" and "s \<noteq> []"
  shows "AppendRune r = take n s"
  using assms
proof (cases rule: DecodeRune_valid_cases)
  case (one b t)
  then show ?thesis by (simp add: AppendRune_def)
next
  case (two q m t)
  then show ?thesis by (simp add: AppendRune_2)
next
  case (three q p m t)
  then show ?thesis by (simp add: AppendRune_3)
next
  case (four q k p m t)
  then show ?thesis by (simp add: AppendRune_4)
qed

lemma ValidRune_DecodeRune:
  assumes "DecodeRune s = (r, n)" and "\<not> (r = RuneError \<and> n = 1)" and "s \<noteq> []"
  shows "ValidRune r"
  using assms
proof (cases rule: DecodeRune_valid_cases)
  case (one b t)
  then show ?thesis by (simp add: ValidRune_def)
next
  case (two q m t)
  then have "0 \<le> r" "r < 0xD800" by linarith+
  then show ?thesis by (simp add: ValidRune_def)
next
  case (three q p m t)
  from three(2-9) have "0x7FF < q * 4096 + p * 64 + m"
    "q * 4096 + p * 64 + m \<le> 0xFFFF"
    "q * 4096 + p * 64 + m < 0xD800 \<or> 0xDFFF < q * 4096 + p * 64 + m"
    by (rule three_byte_range)+
  with three(10) show ?thesis by (auto simp: ValidRune_def)
next
  case (four q k p m t)
  from four(2-11) have "0xFFFF < q * 262144 + k * 4096 + p * 64 + m"
    "q * 262144 + k * 4096 + p * 64 + m \<le> 0x10FFFF"
    by (rule four_byte_range)+
  with four(12) show ?thesis by (auto simp: ValidRune_def)
qed

subsection \<open>Strings of encoded runes\<close>

lemma AppendRune_nonempty: "AppendRune r \<noteq> []"
  by (simp add: AppendRune_def)

lemma range_runes_Nil: "range_runes [] = []"
  by (simp add: range_runes.simps)

lemma range_runes_AppendRune:
  assumes "ValidRune r"
  shows "range_runes (AppendRune r @ t) = r # range_runes t"
proof -
  have "range_runes (AppendRune r @ t) =
          (case DecodeRune (AppendRune r @ t) of
             (r', n) \<Rightarrow> r' # range_runes (drop n (AppendRune r @ t)))"
    by (subst range_runes.simps) (simp add: AppendRune_nonempty)
  also have "\<dots> = r # range_runes t"
    by (simp add: DecodeRune_AppendRune [OF assms])
  finally show ?thesis .
qed

lemma range_runes_concat:
  "\<forall>r \<in> set rs. ValidRune r \<Longrightarrow> range_runes (concat (map AppendRune rs)) = rs"
  by (induction rs) (simp_all add: range_runes_Nil range_runes_AppendRune)

lemma fold_append_concat:
  "fold (\<lambda>x acc. acc @ f x) xs a = a @ concat (map f xs)"
  by (induction xs arbitrary: a) simp_all

lemma Encrypt_concat:
  "Encrypt msg = concat (map (\<lambda>r. AppendRune (r + 3)) (range_runes msg))"
  by (simp add: Encrypt_def fold_append_concat)

lemma Decrypt_concat:
  "Decrypt msg = concat (map (\<lambda>r. AppendRune (r - 3)) (range_runes msg))"
  by (simp add: Decrypt_def fold_append_concat)

lemma range_runes_Encrypt:
  assumes "\<forall>r \<in> set (range_runes msg). ValidRune (r + 3)"
  shows "range_runes (Encrypt msg) = map (\<lambda>r. r + 3) (range_runes msg)"
proof -
  have "Encrypt msg = concat (map AppendRune (map (\<lambda>r. r + 3) (range_runes msg)))"
    by (simp add: Encrypt_concat comp_def)
  moreover have "\<forall>r \<in> set (map (\<lambda>r. r + 3) (range_runes msg)). ValidRune r"
    using assms by simp
  ultimately show ?thesis by (simp only: range_runes_concat)
qed

lemma ValidString_reencode:
  "ValidString s \<Longrightarrow> concat (map AppendRune (range_runes s)) = s"
proof (induction s rule: range_runes.induct)
  case (1 s)
  show ?case
  proof (cases "s = []")
    case True
    then show ?thesis by (simp add: range_runes_Nil)
  next
    case False
    obtain r n where d: "DecodeRune s = (r, n)" by (cases "DecodeRune s")
    from "1.prems" False d have ok: "\<not> (r = RuneError \<and> n = 1)" and v: "ValidString (drop n s)"
      by (subst (asm) ValidString.simps, simp)+
    from False d v have "concat (map AppendRune (range_runes (drop n s))) = drop n s"
      by (intro "1.IH") simp_all
    moreover have "AppendRune r = take n s"
      using d ok False by (rule AppendRune_DecodeRune)
    moreover have "range_runes s = r # range_runes (drop n s)"
      using False d by (subst range_runes.simps) simp
    ultimately show ?thesis by simp
  qed
qed

lemma Decrypt_Encrypt:
  assumes "ValidString s" and "\<forall>r \<in> set (range_runes s). ValidRune (r + 3)"
  shows "Decrypt (Encrypt s) = s"
proof -
  have "Decrypt (Encrypt s) =
          concat (map (\<lambda>r. AppendRune (r - 3)) (map (\<lambda>r. r + 3) (range_runes s)))"
    by (simp only: Decrypt_concat range_runes_Encrypt [OF assms(2)])
  also have "\<dots> = concat (map AppendRune (range_runes s))"
    by (simp add: comp_def)
  also have "\<dots> = s" using assms(1) by (rule ValidString_reencode)
  finally show ?thesis .
qed


subsection \<open>The cipher and the frame written\<close>

text \<open>A string of encoded characters is well-formed, and the other way round.\<close>

lemma length_AppendRune_RuneError: "length (AppendRune RuneError) = 3"
  by (simp add: AppendRune_def RuneError_def)

lemma ValidString_AppendRune:
  assumes "ValidRune r"
  shows "ValidString (AppendRune r @ t) = ValidString t"
proof -
  have "DecodeRune (AppendRune r @ t) = (r, length (AppendRune r))"
    using assms by (rule DecodeRune_AppendRune)
  moreover have "\<not> (r = RuneError \<and> length (AppendRune r) = 1)"
    using length_AppendRune_RuneError by auto
  ultimately show ?thesis
    by (subst ValidString.simps) (simp add: AppendRune_nonempty)
qed

lemma ValidString_Nil: "ValidString []"
  by (simp add: ValidString.simps)

lemma ValidString_concat:
  "\<forall>r \<in> set rs. ValidRune r \<Longrightarrow> ValidString (concat (map AppendRune rs))"
  by (induction rs) (simp_all add: ValidString_Nil ValidString_AppendRune)

text \<open>
  Claim C4, as stated, fails. The claim: for every string whose characters all have a valid
  code point after a +3 shift, \<open>Decrypt (Encrypt s) = s\<close>. The string of the single byte
  \<open>FF\<close> is not well-formed UTF-8; the \<open>range\<close> loop reads it as the character \<open>U+FFFD\<close>,
  whose shifted code point \<open>U+10000\<close> is valid, and the round trip gives the three bytes
  of \<open>U+FFFD\<close> instead of the byte \<open>FF\<close>.
\<close>

theorem Decrypt_Encrypt_invalid_byte_counterexample:
  "range_runes [CHR 0xFF] = [0xFFFD] \<and> ValidRune (0xFFFD + 3) \<and>
   Encrypt [CHR 0xFF] = [CHR 0xF0, CHR 0x90, CHR 0x80, CHR 0x80] \<and>
   Decrypt (Encrypt [CHR 0xFF]) = [CHR 0xEF, CHR 0xBF, CHR 0xBD] \<and>
   Decrypt (Encrypt [CHR 0xFF]) \<noteq> [CHR 0xFF]"
  by code_simp

text \<open>
  Claim C4, amended. For every well-formed UTF-8 string (\<open>ValidString\<close>), that is, for the
  encoding of every list of valid runes, whose characters all have a valid code point after
  a +3 shift, \<open>Decrypt (Encrypt s) = s\<close>. The characters of the string are the runes the
  \<open>range\<close> loop of \<open>Encrypt\<close> visits. The property is stated for both descriptions of such
  a string.
\<close>

theorem Decrypt_Encrypt_identity:
  "(ValidString s \<longrightarrow> (\<forall>r \<in> set (range_runes s). ValidRune (r + 3)) \<longrightarrow>
      Decrypt (Encrypt s) = s) \<and>
   ((\<forall>r \<in> set rs. ValidRune r \<and> ValidRune (r + 3)) \<longrightarrow>
      Decrypt (Encrypt (concat (map AppendRune rs))) = concat (map AppendRune rs))"
proof (intro conjI impI)
  assume "ValidString s" and "\<forall>r \<in> set (range_runes s). ValidRune (r + 3)"
  then show "Decrypt (Encrypt s) = s" by (rule Decrypt_Encrypt)
next
  let ?s = "concat (map AppendRune rs)"
  assume a: "\<forall>r \<in> set rs. ValidRune r \<and> ValidRune (r + 3)"
  then have v: "\<forall>r \<in> set rs. ValidRune r" by simp
  then have "ValidString ?s" by (rule ValidString_concat)
  moreover from v have "range_runes ?s = rs" by (rule range_runes_concat)
  with a have "\<forall>r \<in> set (range_runes ?s). ValidRune (r + 3)" by simp
  ultimately show "Decrypt (Encrypt ?s) = ?s" by (rule Decrypt_Encrypt)
qed

theorem Decrypt_Encrypt_identity_witness:
  "ValidString ''rock'' \<and> range_runes ''rock'' = [114, 111, 99, 107] \<and>
   Encrypt ''rock'' = ''urfn'' \<and> Decrypt (Encrypt ''rock'') = ''rock'' \<and>
   concat (map AppendRune [0x26A0, 0x2620]) = header @ footer \<and>
   Decrypt (Encrypt (header @ footer)) = header @ footer"
proof -
  have v: "ValidString ''rock''" by code_simp
  have r: "range_runes ''rock'' = [114, 111, 99, 107]" by code_simp
  have h: "\<forall>r \<in> set (range_runes ''rock''). ValidRune (r + 3)"
    unfolding r by (simp add: ValidRune_def)
  note rule = Decrypt_Encrypt_identity [of "''rock''" "[0x26A0, 0x2620]"]
  have d: "Decrypt (Encrypt ''rock'') = ''rock''"
    by (rule rule [THEN conjunct1, THEN mp, THEN mp, OF v h])
  have e: "Encrypt ''rock'' = ''urfn''" by code_simp
  have c: "concat (map AppendRune [0x26A0, 0x2620]) = header @ footer" by code_simp
  have k: "\<forall>r \<in> set [0x26A0, 0x2620 :: int]. ValidRune r \<and> ValidRune (r + 3)"
    by (simp add: ValidRune_def)
  have "Decrypt (Encrypt (concat (map AppendRune [0x26A0, 0x2620]))) =
      concat (map AppendRune [0x26A0, 0x2620])"
    by (rule rule [THEN conjunct2, THEN mp, OF k])
  then have m: "Decrypt (Encrypt (header @ footer)) = header @ footer" unfolding c .
  from v r e d c m show ?thesis by (intro conjI)
qed

text \<open>
  Claim C5, as stated, fails: for the payload \<open>U+D7FF\<close> (bytes \<open>ED 9F BF\<close>) the shifted
  code point \<open>U+D802\<close> is a surrogate, \<open>WriteRune\<close> writes \<open>U+FFFD\<close> in its place, and the
  frame written holds no payload shifted by 3.
\<close>

theorem SendMessage_shift_counterexample:
  "outgoing (snd (SendMessage fresh_conn [CHR 0xED, CHR 0x9F, CHR 0xBF])) =
     header @ [CHR 0xEF, CHR 0xBF, CHR 0xBD] @ footer @ [CHR 0x0A] \<and>
   \<not> shifted_by_3 [CHR 0xED, CHR 0x9F, CHR 0xBF] [CHR 0xEF, CHR 0xBF, CHR 0xBD]"
  by code_simp

text \<open>
  Claim C5, amended. For every payload whose characters all have a valid code point after
  the +3 shift, \<open>SendMessage\<close> on a connection that takes the write reports no error and
  writes exactly the start marker, \<open>Encrypt\<close> of the payload, the end marker and a newline,
  and \<open>Encrypt\<close> of the payload is the payload with every character shifted up by 3 code
  points.
\<close>

theorem SendMessage_writes_frame:
  assumes "writable c" and "\<forall>r \<in> set (range_runes msg). ValidRune (r + 3)"
  shows "SendMessage c msg =
           (None, c\<lparr>outgoing := outgoing c @ header @ Encrypt msg @ footer @ [CHR 0x0A]\<rparr>) \<and>
         shifted_by_3 msg (Encrypt msg)"
  using assms by (simp add: SendMessage_def shifted_by_3_def range_runes_Encrypt)

theorem SendMessage_writes_frame_witness:
  "writable fresh_conn \<and> range_runes ''rock'' = [114, 111, 99, 107] \<and>
   SendMessage fresh_conn ''rock'' =
     (None, fresh_conn\<lparr>outgoing := header @ ''urfn'' @ footer @ [CHR 0x0A]\<rparr>) \<and>
   shifted_by_3 ''rock'' ''urfn''"
proof -
  have w: "writable fresh_conn" by (simp add: fresh_conn_def)
  have r: "range_runes ''rock'' = [114, 111, 99, 107]" by code_simp
  have e: "Encrypt ''rock'' = ''urfn''" by code_simp
  have "\<forall>r \<in> set (range_runes ''rock''). ValidRune (r + 3)"
    unfolding r by (simp add: ValidRune_def)
  with w have "SendMessage fresh_conn ''rock'' =
      (None, fresh_conn\<lparr>outgoing := outgoing fresh_conn @ header @ Encrypt ''rock'' @ footer @
         [CHR 0x0A]\<rparr>) \<and> shifted_by_3 ''rock'' (Encrypt ''rock'')"
    by (rule SendMessage_writes_frame)
  then have "SendMessage fresh_conn ''rock'' =
      (None, fresh_conn\<lparr>outgoing := header @ ''urfn'' @ footer @ [CHR 0x0A]\<rparr>)"
    and "shifted_by_3 ''rock'' ''urfn''"
    unfolding e by (simp_all add: fresh_conn_def)
  with w r show ?thesis by (intro conjI)
qed

subsection \<open>The receiver never accepts a frame\<close>

text \<open>A one-byte slice is never the three-byte start marker.\<close>

lemma first_byte_not_header: "take 1 msg \<noteq> header" "take (Suc 0) msg \<noteq> header"
proof -
  show "take (Suc 0) msg \<noteq> header"
  proof
    assume "take (Suc 0) msg = header"
    then have "length (take (Suc 0) msg) = length header" by simp
    then show False by (simp add: header_def)
  qed
  then show "take 1 msg \<noteq> header" by simp
qed

lemma ReceiveMessage_never_succeeds: "ReceiveMessage c \<noteq> Inr payload"
  by (simp add: ReceiveMessage_def Let_def first_byte_not_header split: option.splits)

lemma ReceiveMessage_never_footer_error: "ReceiveMessage c \<noteq> Inl (InvalidFooterError x)"
  by (simp add: ReceiveMessage_def Let_def first_byte_not_header split: option.splits)

text \<open>What \<open>ReceiveMessage\<close> returns for a line it could read.\<close>

lemma ReceiveMessage_result:
  assumes "ReadString (CHR 0x0A) (incoming c) = Some line"
  shows "ReceiveMessage c =
           (if length (TrimSpace line) < 2 then Inl TooShort
            else Inl (InvalidHeaderError (take 1 (TrimSpace line))))"
  using assms by (simp add: ReceiveMessage_def Let_def first_byte_not_header)

text \<open>
  Claim C1 (found false on the code). The claim: decoding the exact frame that \<open>SendMessage\<close>
  writes with \<open>ReceiveMessage\<close> succeeds and returns the payload. On the code, the frame
  written for the payload \<open>rock\<close> is rejected: \<open>msg[:1]\<close> is the single byte \<open>0xE2\<close>, which
  is compared with the three-byte marker.
\<close>

theorem ReceiveMessage_rejects_sent_frame:
  "ReceiveMessage (peer (snd (SendMessage fresh_conn ''rock''))) =
     Inl (InvalidHeaderError [CHR 0xE2])"
  by code_simp

text \<open>
  Claim C3 (found false on the code). The claim: a line fails with the header error exactly
  when its first character is not the start marker, with the footer error exactly when the
  first character is the start marker and the last is not the end marker, and with the
  too-short error exactly when it has fewer than 2 characters. On the code, the line made
  of the start marker and the letter \<open>x\<close> gives the header error, and so does the line
  made of the start marker alone (one character, three bytes).
\<close>

theorem ReceiveMessage_header_error_on_marked_lines:
  "ReceiveMessage \<lparr>incoming = header @ ''x'' @ [CHR 0x0A], outgoing = [], writable = True\<rparr> =
     Inl (InvalidHeaderError [CHR 0xE2]) \<and>
   ReceiveMessage \<lparr>incoming = header @ [CHR 0x0A], outgoing = [], writable = True\<rparr> =
     Inl (InvalidHeaderError [CHR 0xE2])"
  by code_simp

subsection \<open>Start-up arguments\<close>

lemma exit_of_main_args:
  "(prog # args) ! 1 = args ! 0" "(prog # args) ! 2 = args ! 1"
  "length (prog # args) < 3 \<longleftrightarrow> length args < 2"
  by auto

text \<open>Both constructors give the intake of waiting players room for 100 connections.\<close>

lemma intake_capacity:
  "WaitingPlayers (NewServer rounds port) = \<lparr>capacity = 100, queue = []\<rparr>"
  "gm_WaitingPlayers (NewGameManager rounds) = \<lparr>capacity = 100, queue = []\<rparr>"
  by (simp_all add: NewServer_def NewGameManager_def make_chan_def)

text \<open>
  Claim C7. With fewer than two positional arguments the server prints the usage line and
  exits with status 1; with two or more it exits fatally (status 1) when the round count
  does not parse as an integer or parses to a value at most 0; with a positive round count
  it goes on to start the server built from the round count and the port.
\<close>

theorem main_argument_validation:
  "(length args < 2 \<longrightarrow>
      main prog args =
        UsageExit (''Usage: '' @ prog @ '' <number_of_rounds> <port>'' @ [CHR 0x0A]) 1) \<and>
   (2 \<le> length args \<longrightarrow> Atoi (args ! 0) = None \<longrightarrow> main prog args = Fatal 1) \<and>
   (2 \<le> length args \<longrightarrow>
      (\<forall>n. Atoi (args ! 0) = Some n \<longrightarrow> n \<le> 0 \<longrightarrow> main prog args = Fatal 1)) \<and>
   (2 \<le> length args \<longrightarrow>
      (\<forall>n. Atoi (args ! 0) = Some n \<longrightarrow> 0 < n \<longrightarrow>
         main prog args = Serving (NewServer n (args ! 1))))"
  unfolding main_def exit_of_main_args by auto

theorem main_argument_validation_witness:
  "main ''server'' [''3''] =
     UsageExit (''Usage: server <number_of_rounds> <port>'' @ [CHR 0x0A]) 1 \<and>
   Atoi ''three'' = None \<and> main ''server'' [''three'', ''8080''] = Fatal 1 \<and>
   Atoi ''-3'' = Some (- 3) \<and> main ''server'' [''-3'', ''8080''] = Fatal 1 \<and>
   Atoi ''3'' = Some 3 \<and> main ''server'' [''3'', ''8080''] = Serving (NewServer 3 ''8080'')"
proof -
  have a1: "Atoi ''three'' = None" and a2: "Atoi ''-3'' = Some (- 3)"
    and a3: "Atoi ''3'' = Some 3"
    by code_simp+
  have u: "main ''server'' [''3''] =
     UsageExit (''Usage: server <number_of_rounds> <port>'' @ [CHR 0x0A]) 1"
    using main_argument_validation [of "[''3'']" "''server''"] by simp
  have f1: "main ''server'' [''three'', ''8080''] = Fatal 1"
    using main_argument_validation [of "[''three'', ''8080'']" "''server''"] a1 by simp
  have f2: "main ''server'' [''-3'', ''8080''] = Fatal 1"
    using main_argument_validation [of "[''-3'', ''8080'']" "''server''"] a2 by simp
  have g: "main ''server'' [''3'', ''8080''] = Serving (NewServer 3 ''8080'')"
    using main_argument_validation [of "[''3'', ''8080'']" "''server''"] a3 by simp
  from u a1 f1 a2 f2 a3 g show ?thesis by (intro conjI)
qed


subsection \<open>The prompt for a choice\<close>

lemma in_choices: "c \<in> choices \<longleftrightarrow> \<not> (c \<noteq> ''rock'' \<and> c \<noteq> ''paper'' \<and> c \<noteq> ''scissors'')"
  by (auto simp: choices_def)

lemma promptChoice_eof:
  assumes "ReadString (CHR 0x0A) (stdin w) = None"
  shows "promptChoice tbl w =
           (Inl ReadChoiceFailed, w\<lparr>stdin := [], stdout := stdout w @ prompt_text\<rparr>)"
  using assms by (subst promptChoice.simps) simp

lemma promptChoice_invalid:
  assumes "ReadString (CHR 0x0A) (stdin w) = Some line"
    and "TrimSpace (ToLower tbl line) \<notin> choices"
  shows "promptChoice tbl w =
           promptChoice tbl (w\<lparr>stdin := drop (length line) (stdin w),
                                stdout := stdout w @ prompt_text @ invalid_text\<rparr>)"
  using assms by (subst promptChoice.simps) (simp add: in_choices Let_def)

lemma promptChoice_valid:
  assumes "ReadString (CHR 0x0A) (stdin w) = Some line"
    and "TrimSpace (ToLower tbl line) \<in> choices"
  shows "promptChoice tbl w =
           (Inr (TrimSpace (ToLower tbl line)),
            w\<lparr>stdin := drop (length line) (stdin w), stdout := stdout w @ prompt_text\<rparr>)"
  using assms by (subst promptChoice.simps) (auto simp add: in_choices Let_def)

lemma promptChoice_cases [case_names eof invalid valid]:
  obtains (eof) "ReadString (CHR 0x0A) (stdin w) = None"
  | (invalid) line where "ReadString (CHR 0x0A) (stdin w) = Some line"
      "TrimSpace (ToLower tbl line) \<notin> choices"
  | (valid) line where "ReadString (CHR 0x0A) (stdin w) = Some line"
      "TrimSpace (ToLower tbl line) \<in> choices"
  by (cases "ReadString (CHR 0x0A) (stdin w)") auto

lemma promptChoice_result:
  "promptChoice tbl w = (res, w') \<Longrightarrow>
     link w' = link w \<and> (\<forall>c. res = Inr c \<longrightarrow> c \<in> choices)"
proof (induction "length (stdin w)" arbitrary: w rule: less_induct)
  case less
  show ?case
  proof (cases rule: promptChoice_cases [where w = w and tbl = tbl])
    case eof
    with less.prems show ?thesis by (auto simp: promptChoice_eof)
  next
    case (invalid line)
    let ?w = "w\<lparr>stdin := drop (length line) (stdin w),
                 stdout := stdout w @ prompt_text @ invalid_text\<rparr>"
    from invalid have "length (stdin ?w) < length (stdin w)"
      by (simp add: ReadString_shorter del: length_drop)
    moreover from invalid less.prems have "promptChoice tbl ?w = (res, w')"
      by (simp add: promptChoice_invalid)
    ultimately have "link w' = link ?w \<and> (\<forall>c. res = Inr c \<longrightarrow> c \<in> choices)"
      by (rule less.hyps)
    then show ?thesis by simp
  next
    case (valid line)
    with less.prems show ?thesis by (auto simp: promptChoice_valid)
  qed
qed

lemma gameLoop_request_sends:
  assumes "gameLoop_request tbl w = (e, w')"
  shows "link w' = link w \<or> (\<exists>c \<in> choices. link w' = snd (SendMessage (link w) c))"
proof (cases "promptChoice tbl w")
  case (Pair res w1)
  then have l: "link w1 = link w" and c: "\<forall>c. res = Inr c \<longrightarrow> c \<in> choices"
    by (simp_all add: promptChoice_result)
  show ?thesis
  proof (cases res)
    case (Inl err)
    with Pair assms l show ?thesis by (auto simp: gameLoop_request_def)
  next
    case (Inr choice)
    with c have "choice \<in> choices" by simp
    moreover from Pair Inr assms l have "link w' = snd (SendMessage (link w) choice)"
      by (auto simp: gameLoop_request_def split: prod.splits option.splits)
    ultimately show ?thesis by auto
  qed
qed

text \<open>
  Claim C8. Whatever the user types, \<open>promptChoice\<close> returns only \<open>rock\<close>, \<open>paper\<close> or
  \<open>scissors\<close>: the line read, lower-cased and trimmed, when that is one of the three. For
  any other line it prints the complaint and prompts again. It never touches the
  connection, and \<open>gameLoop\<close> sends nothing but a choice that \<open>promptChoice\<close> returned.
\<close>

theorem promptChoice_only_valid_choices:
  "(\<forall>res w'. promptChoice tbl w = (res, w') \<longrightarrow>
      link w' = link w \<and> (\<forall>c. res = Inr c \<longrightarrow> c \<in> choices)) \<and>
   (\<forall>line. ReadString (CHR 0x0A) (stdin w) = Some line \<longrightarrow>
      TrimSpace (ToLower tbl line) \<notin> choices \<longrightarrow>
      promptChoice tbl w =
        promptChoice tbl (w\<lparr>stdin := drop (length line) (stdin w),
                             stdout := stdout w @ prompt_text @ invalid_text\<rparr>)) \<and>
   (\<forall>line. ReadString (CHR 0x0A) (stdin w) = Some line \<longrightarrow>
      TrimSpace (ToLower tbl line) \<in> choices \<longrightarrow>
      promptChoice tbl w =
        (Inr (TrimSpace (ToLower tbl line)),
         w\<lparr>stdin := drop (length line) (stdin w), stdout := stdout w @ prompt_text\<rparr>)) \<and>
   (\<forall>e w'. gameLoop_request tbl w = (e, w') \<longrightarrow>
      link w' = link w \<or> (\<exists>c \<in> choices. link w' = snd (SendMessage (link w) c)))"
proof (intro conjI allI impI)
  fix res w' assume "promptChoice tbl w = (res, w')"
  then have r: "link w' = link w \<and> (\<forall>c. res = Inr c \<longrightarrow> c \<in> choices)"
    by (rule promptChoice_result)
  from r show "link w' = link w" ..
  fix c assume "res = Inr c"
  with r show "c \<in> choices" by simp
next
  fix line
  assume "ReadString (CHR 0x0A) (stdin w) = Some line"
    "TrimSpace (ToLower tbl line) \<notin> choices"
  then show "promptChoice tbl w =
        promptChoice tbl (w\<lparr>stdin := drop (length line) (stdin w),
                             stdout := stdout w @ prompt_text @ invalid_text\<rparr>)"
    by (rule promptChoice_invalid)
next
  fix line
  assume "ReadString (CHR 0x0A) (stdin w) = Some line"
    "TrimSpace (ToLower tbl line) \<in> choices"
  then show "promptChoice tbl w =
        (Inr (TrimSpace (ToLower tbl line)),
         w\<lparr>stdin := drop (length line) (stdin w), stdout := stdout w @ prompt_text\<rparr>)"
    by (rule promptChoice_valid)
next
  fix e w' assume "gameLoop_request tbl w = (e, w')"
  then show "link w' = link w \<or> (\<exists>c \<in> choices. link w' = snd (SendMessage (link w) c))"
    by (rule gameLoop_request_sends)
qed

theorem promptChoice_only_valid_choices_witness:
  "ReadString (CHR 0x0A) (''Banana'' @ [CHR 0x0A] @ ''  RoCk '' @ [CHR 0x0D, CHR 0x0A] @ ''rest'') =
     Some (''Banana'' @ [CHR 0x0A]) \<and>
   TrimSpace (ToLower (\<lambda>r. r) (''Banana'' @ [CHR 0x0A])) = ''banana'' \<and>
   ''banana'' \<notin> choices \<and>
   ReadString (CHR 0x0A) (''  RoCk '' @ [CHR 0x0D, CHR 0x0A] @ ''rest'') =
     Some (''  RoCk '' @ [CHR 0x0D, CHR 0x0A]) \<and>
   TrimSpace (ToLower (\<lambda>r. r) (''  RoCk '' @ [CHR 0x0D, CHR 0x0A])) = ''rock'' \<and>
   ''rock'' \<in> choices \<and>
   promptChoice (\<lambda>r. r)
     \<lparr>stdin = ''Banana'' @ [CHR 0x0A] @ ''  RoCk '' @ [CHR 0x0D, CHR 0x0A] @ ''rest'',
      stdout = [], link = fresh_conn\<rparr> =
     (Inr ''rock'',
      \<lparr>stdin = ''rest'', stdout = prompt_text @ invalid_text @ prompt_text,
       link = fresh_conn\<rparr>)"
proof -
  let ?tbl = "\<lambda>r::int. r"
  let ?l1 = "''Banana'' @ [CHR 0x0A]"
  let ?l2 = "''  RoCk '' @ [CHR 0x0D, CHR 0x0A]"
  let ?w0 = "\<lparr>stdin = ?l1 @ ?l2 @ ''rest'', stdout = [], link = fresh_conn\<rparr>"
  let ?w1 = "\<lparr>stdin = ?l2 @ ''rest'', stdout = prompt_text @ invalid_text, link = fresh_conn\<rparr>"
  have r1: "ReadString (CHR 0x0A) (?l1 @ ?l2 @ ''rest'') = Some ?l1" by code_simp
  have t1: "TrimSpace (ToLower ?tbl ?l1) = ''banana''" by code_simp
  have n1: "''banana'' \<notin> choices" by (simp add: choices_def)
  have r2: "ReadString (CHR 0x0A) (?l2 @ ''rest'') = Some ?l2" by code_simp
  have t2: "TrimSpace (ToLower ?tbl ?l2) = ''rock''" by code_simp
  have n2: "''rock'' \<in> choices" by (simp add: choices_def)
  note rule0 = promptChoice_only_valid_choices [of ?tbl ?w0]
  note rule1 = promptChoice_only_valid_choices [of ?tbl ?w1]
  from rule0 have "\<forall>line. ReadString (CHR 0x0A) (stdin ?w0) = Some line \<longrightarrow>
      TrimSpace (ToLower ?tbl line) \<notin> choices \<longrightarrow>
      promptChoice ?tbl ?w0 =
        promptChoice ?tbl (?w0\<lparr>stdin := drop (length line) (stdin ?w0),
                             stdout := stdout ?w0 @ prompt_text @ invalid_text\<rparr>)"
    by (elim conjE)
  with r1 t1 n1 have s1: "promptChoice ?tbl ?w0 = promptChoice ?tbl ?w1" by simp
  from rule1 have "\<forall>line. ReadString (CHR 0x0A) (stdin ?w1) = Some line \<longrightarrow>
      TrimSpace (ToLower ?tbl line) \<in> choices \<longrightarrow>
      promptChoice ?tbl ?w1 =
        (Inr (TrimSpace (ToLower ?tbl line)),
         ?w1\<lparr>stdin := drop (length line) (stdin ?w1), stdout := stdout ?w1 @ prompt_text\<rparr>)"
    by (elim conjE)
  with r2 t2 n2 have s2: "promptChoice ?tbl ?w1 =
      (Inr ''rock'', \<lparr>stdin = ''rest'', stdout = prompt_text @ invalid_text @ prompt_text,
        link = fresh_conn\<rparr>)" by simp
  from s1 s2 have "promptChoice ?tbl ?w0 =
      (Inr ''rock'', \<lparr>stdin = ''rest'', stdout = prompt_text @ invalid_text @ prompt_text,
        link = fresh_conn\<rparr>)" by simp
  with r1 t1 n1 r2 t2 n2 show ?thesis by simp
qed

subsection \<open>Trimming white space around a string\<close>

lemma RuneStart_char_of:
  "0 \<le> b \<Longrightarrow> b < 256 \<Longrightarrow> RuneStart (char_of (b::int)) \<longleftrightarrow> \<not> (0x80 \<le> b \<and> b \<le> 0xBF)"
  by (simp add: RuneStart_def)

text \<open>The encoding of a valid rune: one ASCII byte, or a lead byte and continuation bytes.\<close>

lemma AppendRune_shape:
  assumes "ValidRune r"
  obtains (ascii) "0 \<le> r" "r < 0x80" "AppendRune r = [char_of r]"
  | (multi) c0 cs cl where "AppendRune r = c0 # cs @ [cl]" "RuneStart c0"
      "\<forall>c \<in> set cs. \<not> RuneStart c" "\<not> RuneStart cl" "length cs \<le> 2"
proof -
  let ?s = "AppendRune r"
  have dec: "DecodeRune ?s = (r, length ?s)"
    using DecodeRune_AppendRune [OF assms, of "[]"] by simp
  have ne: "?s \<noteq> []" by (rule AppendRune_nonempty)
  have ok: "\<not> (r = RuneError \<and> length ?s = 1)"
    by (auto simp: RuneError_def AppendRune_def)
  from dec ok ne show thesis
  proof (cases rule: DecodeRune_valid_cases)
    case (one b t)
    then show ?thesis by (intro ascii) (auto simp: AppendRune_def)
  next
    case (two q m t)
    then have s: "?s = char_of (0xC0 + q) # [] @ [char_of (0x80 + m)]"
      by (cases t) auto
    from two show ?thesis
      by (intro multi [OF s]) (simp_all add: RuneStart_char_of)
  next
    case (three q p m t)
    then have s: "?s = char_of (0xE0 + q) # [char_of (0x80 + p)] @ [char_of (0x80 + m)]"
      by (cases t) auto
    from three show ?thesis
      by (intro multi [OF s]) (simp_all add: RuneStart_char_of)
  next
    case (four q k p m t)
    then have s: "?s = char_of (0xF0 + q) # [char_of (0x80 + k), char_of (0x80 + p)] @
        [char_of (0x80 + m)]"
      by (cases t) auto
    from four show ?thesis
      by (intro multi [OF s]) (simp_all add: RuneStart_char_of)
  qed
qed

lemma RuneStart_hd_AppendRune: "ValidRune r \<Longrightarrow> RuneStart (hd (AppendRune r))"
proof (erule AppendRune_shape)
  assume "0 \<le> r" "r < 0x80" "AppendRune r = [char_of r]"
  then show ?thesis by (simp add: RuneStart_char_of)
next
  fix c0 cs cl
  assume "AppendRune r = c0 # cs @ [cl]" "RuneStart c0"
  then show ?thesis by simp
qed

lemma cont_tail_AppendRune:
  assumes "ValidRune r" "1 \<le> i" "i < length (AppendRune r)"
  shows "\<not> RuneStart (AppendRune r ! i)"
  using assms(1)
proof (cases rule: AppendRune_shape)
  case ascii
  with assms show ?thesis by simp
next
  case (multi c0 cs cl)
  from assms(2,3) multi(1) have "AppendRune r ! i \<in> set (cs @ [cl])"
    by (cases i) (auto simp del: set_append)
  with multi show ?thesis by auto
qed


text \<open>A decoding step does not depend on what follows a white-space-free start.\<close>

lemma DecodeRune_append_valid:
  assumes "DecodeRune y = (r, n)" and "\<not> (r = RuneError \<and> n = 1)" and "y \<noteq> []"
  shows "DecodeRune (y @ w) = (r, n)"
proof -
  from assms have e: "AppendRune r = take n y" by (rule AppendRune_DecodeRune)
  from assms have v: "ValidRune r" by (rule ValidRune_DecodeRune)
  define t where "t = drop n y"
  have y: "y = AppendRune r @ t" by (simp add: e t_def)
  have "DecodeRune (AppendRune r @ t) = (r, length (AppendRune r))"
    using v by (rule DecodeRune_AppendRune)
  with assms(1) have n: "n = length (AppendRune r)" unfolding y by simp
  have "DecodeRune (AppendRune r @ (t @ w)) = (r, length (AppendRune r))"
    using v by (rule DecodeRune_AppendRune)
  then show ?thesis unfolding y n by simp
qed

lemma DecodeRune_error_cases:
  "s \<noteq> [] \<Longrightarrow> DecodeRune s = (r, n) \<Longrightarrow> (r = RuneError \<and> n = 1) \<or> \<not> (r = RuneError \<and> n = 1)"
  by simp

lemma DecodeRune_append_invalid:
  assumes "DecodeRune y = (RuneError, 1)" and "y \<noteq> []"
    and "w = [] \<or> RuneStart (hd w)"
  shows "DecodeRune (y @ w) = (RuneError, 1)"
proof (rule ccontr)
  assume c: "DecodeRune (y @ w) \<noteq> (RuneError, 1)"
  obtain r n where d: "DecodeRune (y @ w) = (r, n)" by (cases "DecodeRune (y @ w)")
  with c have ok: "\<not> (r = RuneError \<and> n = 1)" by auto
  from assms(2) have ne: "y @ w \<noteq> []" by simp
  from d ok ne have e: "AppendRune r = take n (y @ w)" by (rule AppendRune_DecodeRune)
  from d ok ne have v: "ValidRune r" by (rule ValidRune_DecodeRune)
  let ?e = "AppendRune r"
  define t where "t = drop n (y @ w)"
  have yw: "y @ w = ?e @ t" by (simp only: e t_def append_take_drop_id)
  show False
  proof (cases "length ?e \<le> length y")
    case True
    with yw have "y = ?e @ drop (length ?e) y"
      by (metis append_eq_append_conv_if append_take_drop_id)
    moreover have "DecodeRune (?e @ drop (length ?e) y) = (r, length ?e)"
      using v by (rule DecodeRune_AppendRune)
    ultimately have "DecodeRune y = (r, length ?e)" by simp
    moreover have "DecodeRune (?e @ t) = (r, length ?e)"
      using v by (rule DecodeRune_AppendRune)
    with yw d have "n = length ?e" by simp
    ultimately show False using assms(1) ok by simp
  next
    case False
    then have lt: "length y < length ?e" by simp
    from assms(2) have pos: "1 \<le> length y" by (cases y) auto
    from lt yw have wne: "w \<noteq> []" by (metis append_Nil2 e length_take min.cobounded1 not_le)
    have "?e ! length y = (y @ w) ! length y"
      using lt by (subst yw) (simp add: nth_append)
    also have "\<dots> = hd w" using wne by (simp add: nth_append hd_conv_nth)
    finally have "hd w = ?e ! length y" by simp
    moreover from v pos lt have "\<not> RuneStart (?e ! length y)" by (rule cont_tail_AppendRune)
    ultimately show False using assms(3) wne by simp
  qed
qed

lemma DecodeRune_append:
  assumes "y \<noteq> []" and "w = [] \<or> RuneStart (hd w)"
  shows "DecodeRune (y @ w) = DecodeRune y"
proof (cases "DecodeRune y")
  case (Pair r n)
  show ?thesis
  proof (cases "r = RuneError \<and> n = 1")
    case True
    with Pair assms show ?thesis by (simp add: DecodeRune_append_invalid)
  next
    case False
    with Pair assms(1) show ?thesis by (simp add: DecodeRune_append_valid)
  qed
qed


text \<open>The last rune of a string that ends with the encoding of a valid rune.\<close>

lemma backToStart_over_cont:
  assumes "RuneStart c0" and "\<forall>c \<in> set cs. \<not> RuneStart c" and "lim \<le> int (length x)"
  shows "backToStart (x @ c0 # cs @ t) (int (length x) + int (length cs)) lim = int (length x)"
  using assms(2)
proof (induction cs arbitrary: t rule: rev_induct)
  case Nil
  have "(x @ c0 # t) ! length x = c0" by simp
  with assms(1,3) show ?case
    by (subst backToStart.simps) simp
next
  case (snoc c cs)
  let ?s = "x @ c0 # (cs @ [c]) @ t"
  have idx: "nat (int (length x) + int (length (cs @ [c]))) = length x + Suc (length cs)"
    by simp
  have "?s ! (length x + Suc (length cs)) = c"
    by (simp add: nth_append)
  moreover from snoc.prems have "\<not> RuneStart c" by simp
  moreover from assms(3) have "lim \<le> int (length x) + int (length (cs @ [c]))" by simp
  ultimately have "backToStart ?s (int (length x) + int (length (cs @ [c]))) lim =
      backToStart ?s (int (length x) + int (length (cs @ [c])) - 1) lim"
    by (subst backToStart.simps) (simp only: idx if_True if_False)
  also have "int (length x) + int (length (cs @ [c])) - 1 = int (length x) + int (length cs)"
    by simp
  also have "?s = x @ c0 # cs @ (c # t)" by simp
  also have "backToStart (x @ c0 # cs @ (c # t)) (int (length x) + int (length cs)) lim =
      int (length x)"
    using snoc.prems by (intro snoc.IH) simp
  finally show ?case by simp
qed

lemma DecodeLastRune_ascii:
  assumes "0 \<le> b" "b < 0x80"
  shows "DecodeLastRune (x @ [char_of b]) = (b, 1)"
  using assms by (simp add: DecodeLastRune_def Let_def)

lemma DecodeLastRune_multi:
  assumes "RuneStart c0" and "\<forall>c \<in> set cs. \<not> RuneStart c" and "\<not> RuneStart cl"
    and "length cs \<le> 2" and "DecodeRune (c0 # cs @ [cl]) = (r, length (c0 # cs @ [cl]))"
  shows "DecodeLastRune (x @ c0 # cs @ [cl]) = (r, length (c0 # cs @ [cl]))"
proof -
  let ?s = "x @ c0 # cs @ [cl]"
  let ?e = "int (length ?s)"
  have e: "?e = int (length x) + int (length cs) + 2" by simp
  have last: "?s ! nat (?e - 1) = cl"
  proof -
    have "nat (?e - 1) = length x + Suc (length cs)" by simp
    then show ?thesis by (simp add: nth_append)
  qed
  from assms(3) have hi: "\<not> (of_char cl :: int) < 0x80" by (simp add: RuneStart_def)
  have lim: "max 0 (?e - 4) \<le> int (length x)" using assms(4) by simp
  have "backToStart ?s (?e - 2) (max 0 (?e - 4)) =
      backToStart (x @ c0 # cs @ [cl]) (int (length x) + int (length cs)) (max 0 (?e - 4))"
    by (simp only: e) simp
  also have "\<dots> = int (length x)"
    using assms(1,2) lim by (rule backToStart_over_cont)
  finally have b: "backToStart ?s (?e - 2) (max 0 (?e - 4)) = int (length x)" .
  have d: "drop (nat (int (length x))) ?s = c0 # cs @ [cl]" by simp
  have n0: "\<not> int (length x) < 0" by simp
  have ne: "?e \<noteq> 0" by simp
  have fin: "int (length x) + int (length (c0 # cs @ [cl])) = ?e" by simp
  show ?thesis
    unfolding DecodeLastRune_def Let_def
    by (simp only: ne if_False last hi b n0 d assms(5) fin prod.case simp_thms)
qed

lemma DecodeLastRune_AppendRune:
  assumes "ValidRune r"
  shows "DecodeLastRune (x @ AppendRune r) = (r, length (AppendRune r))"
  using assms
proof (cases rule: AppendRune_shape)
  case ascii
  then show ?thesis by (simp add: DecodeLastRune_ascii)
next
  case (multi c0 cs cl)
  have "DecodeRune (AppendRune r) = (r, length (AppendRune r))"
    using DecodeRune_AppendRune [OF assms, of "[]"] by simp
  with multi have "DecodeLastRune (x @ c0 # cs @ [cl]) = (r, length (c0 # cs @ [cl]))"
    by (intro DecodeLastRune_multi) simp_all
  with multi(1) show ?thesis by simp
qed


lemma IsSpace_ValidRune: "IsSpace r \<Longrightarrow> ValidRune r"
  by (auto simp: IsSpace_def ValidRune_def split: if_splits)

lemma not_IsSpace_RuneError: "\<not> IsSpace RuneError"
  by (simp add: IsSpace_def RuneError_def)

lemma space_string_runes:
  assumes "space_string w"
  obtains rs where "w = concat (map AppendRune rs)" "\<forall>r \<in> set rs. IsSpace r"
proof
  from assms show "w = concat (map AppendRune (range_runes w))"
    by (simp add: space_string_def ValidString_reencode)
  from assms show "\<forall>r \<in> set (range_runes w). IsSpace r"
    by (simp add: space_string_def list_all_iff)
qed

lemma TrimLeftSpace_Nil: "TrimLeftSpace [] = []"
  by (simp add: TrimLeftSpace.simps)

lemma TrimRightSpace_Nil: "TrimRightSpace [] = []"
  by (simp add: TrimRightSpace.simps)

lemma TrimLeftSpace_AppendRune:
  assumes "IsSpace r"
  shows "TrimLeftSpace (AppendRune r @ t) = TrimLeftSpace t"
proof -
  from assms have v: "ValidRune r" by (rule IsSpace_ValidRune)
  have "DecodeRune (AppendRune r @ t) = (r, length (AppendRune r))"
    using v by (rule DecodeRune_AppendRune)
  with assms show ?thesis
    by (subst TrimLeftSpace.simps) (simp add: AppendRune_nonempty)
qed

lemma TrimLeftSpace_spaces:
  "\<forall>r \<in> set rs. IsSpace r \<Longrightarrow> TrimLeftSpace (concat (map AppendRune rs) @ t) = TrimLeftSpace t"
  by (induction rs) (simp_all add: TrimLeftSpace_AppendRune)

lemma TrimRightSpace_AppendRune:
  assumes "IsSpace r"
  shows "TrimRightSpace (x @ AppendRune r) = TrimRightSpace x"
proof -
  from assms have v: "ValidRune r" by (rule IsSpace_ValidRune)
  have "DecodeLastRune (x @ AppendRune r) = (r, length (AppendRune r))"
    using v by (rule DecodeLastRune_AppendRune)
  with assms show ?thesis
    by (subst TrimRightSpace.simps) (simp add: AppendRune_nonempty)
qed

lemma TrimRightSpace_spaces:
  "\<forall>r \<in> set rs. IsSpace r \<Longrightarrow> TrimRightSpace (x @ concat (map AppendRune rs)) = TrimRightSpace x"
proof (induction rs rule: rev_induct)
  case Nil
  then show ?case by simp
next
  case (snoc r rs)
  have "x @ concat (map AppendRune (rs @ [r])) = (x @ concat (map AppendRune rs)) @ AppendRune r"
    by simp
  moreover from snoc.prems have "IsSpace r" by simp
  then have "TrimRightSpace ((x @ concat (map AppendRune rs)) @ AppendRune r) =
      TrimRightSpace (x @ concat (map AppendRune rs))"
    by (rule TrimRightSpace_AppendRune)
  moreover from snoc have "TrimRightSpace (x @ concat (map AppendRune rs)) = TrimRightSpace x"
    by simp
  ultimately show ?case by (simp only:)
qed

lemma spaces_start:
  assumes "\<forall>r \<in> set rs. IsSpace r"
  shows "concat (map AppendRune rs) = [] \<or> RuneStart (hd (concat (map AppendRune rs)))"
proof (cases rs)
  case Nil
  then show ?thesis by simp
next
  case (Cons r rs')
  with assms have "ValidRune r" by (simp add: IsSpace_ValidRune)
  then have "RuneStart (hd (AppendRune r))" by (rule RuneStart_hd_AppendRune)
  with Cons show ?thesis by (simp add: AppendRune_nonempty)
qed

lemma TrimSpace_append_spaces:
  assumes "\<forall>r \<in> set rs. IsSpace r"
  shows "TrimRightSpace (TrimLeftSpace (x @ concat (map AppendRune rs))) =
         TrimRightSpace (TrimLeftSpace x)"
proof (induction x rule: TrimLeftSpace.induct)
  case (1 x)
  let ?w = "concat (map AppendRune rs)"
  show ?case
  proof (cases "x = []")
    case True
    have "TrimLeftSpace (?w @ []) = TrimLeftSpace []"
      using assms by (rule TrimLeftSpace_spaces)
    with True show ?thesis by simp
  next
    case False
    obtain r n where d: "DecodeRune x = (r, n)" by (cases "DecodeRune x")
    have dw: "DecodeRune (x @ ?w) = (r, n)"
      using DecodeRune_append [OF False spaces_start [OF assms]] d by simp
    show ?thesis
    proof (cases "IsSpace r")
      case True
      then have ok: "\<not> (r = RuneError \<and> n = 1)" using not_IsSpace_RuneError by auto
      from d ok False have "AppendRune r = take n x" by (rule AppendRune_DecodeRune)
      moreover have "AppendRune r \<noteq> []" by (rule AppendRune_nonempty)
      moreover have "DecodeRune (AppendRune r @ drop n x) = (r, length (AppendRune r))"
        using True by (intro DecodeRune_AppendRune IsSpace_ValidRune)
      ultimately have n: "n \<le> length x" using d by (metis append_take_drop_id prod.inject length_take min.cobounded1)
      then have dr: "drop n (x @ ?w) = drop n x @ ?w" by simp
      have "TrimLeftSpace (x @ ?w) = TrimLeftSpace (drop n x @ ?w)"
        using False dw True dr by (subst TrimLeftSpace.simps) simp
      moreover have "TrimLeftSpace x = TrimLeftSpace (drop n x)"
        using False d True by (subst TrimLeftSpace.simps) simp
      moreover have "TrimRightSpace (TrimLeftSpace (drop n x @ ?w)) =
          TrimRightSpace (TrimLeftSpace (drop n x))"
        using False d True by (intro "1.IH") simp_all
      ultimately show ?thesis by simp
    next
      case no: False
      have "TrimLeftSpace (x @ ?w) = x @ ?w"
        using False dw no by (subst TrimLeftSpace.simps) simp
      moreover have "TrimLeftSpace x = x"
        using False d no by (subst TrimLeftSpace.simps) simp
      ultimately show ?thesis using assms by (simp add: TrimRightSpace_spaces)
    qed
  qed
qed

lemma TrimSpace_padded:
  assumes "space_string a" and "space_string b"
  shows "TrimSpace (a @ core @ b) = TrimSpace core"
proof -
  from assms(1) obtain ra where a: "a = concat (map AppendRune ra)" "\<forall>r \<in> set ra. IsSpace r"
    by (rule space_string_runes)
  from assms(2) obtain rb where b: "b = concat (map AppendRune rb)" "\<forall>r \<in> set rb. IsSpace r"
    by (rule space_string_runes)
  have "TrimLeftSpace (a @ core @ b) = TrimLeftSpace (core @ b)"
    unfolding a(1) using a(2) by (rule TrimLeftSpace_spaces)
  moreover have "TrimRightSpace (TrimLeftSpace (core @ b)) = TrimRightSpace (TrimLeftSpace core)"
    unfolding b(1) using b(2) by (rule TrimSpace_append_spaces)
  ultimately show ?thesis by (simp add: TrimSpace_def)
qed


text \<open>A string that neither starts nor ends with white space is left as it is.\<close>

lemma TrimSpace_unchanged:
  assumes "core \<noteq> []" and "\<not> IsSpace (fst (DecodeRune core))"
    and "\<not> IsSpace (fst (DecodeLastRune core))"
  shows "TrimSpace core = core"
proof -
  obtain r n where d: "DecodeRune core = (r, n)" by (cases "DecodeRune core")
  obtain r' n' where d': "DecodeLastRune core = (r', n')" by (cases "DecodeLastRune core")
  have "TrimLeftSpace core = core"
    using assms(1,2) d by (subst TrimLeftSpace.simps) simp
  moreover have "TrimRightSpace core = core"
    using assms(1,3) d' by (subst TrimRightSpace.simps) simp
  ultimately show ?thesis by (simp add: TrimSpace_def)
qed

text \<open>
  Claim C10. \<open>ReceiveMessage\<close> strips the white space around the received line before it
  checks length and markers: for a received line made of white space, a core and white
  space, the result is that of the length test, the marker tests and the decryption on the
  core with its own surrounding white space removed, and a core that neither starts nor
  ends with white space is tested as it is. So two received lines that differ only in the
  white space around the same core give the same result or error, and white space before
  the start marker or after the end marker changes nothing by itself.
\<close>

theorem ReceiveMessage_ignores_surrounding_space:
  assumes "space_string a" and "space_string b"
    and "ReadString (CHR 0x0A) (incoming c) = Some (a @ core @ b)"
  shows "ReceiveMessage c =
           (let msg = TrimSpace core in
            if length msg < 2 then Inl TooShort
            else if take 1 msg \<noteq> header then Inl (InvalidHeaderError (take 1 msg))
            else if drop (length msg - 1) msg \<noteq> footer
              then Inl (InvalidFooterError (drop (length msg - 1) msg))
            else Inr (Decrypt (take (length msg - 1 - 1) (drop 1 msg)))) \<and>
         (core \<noteq> [] \<longrightarrow> \<not> IsSpace (fst (DecodeRune core)) \<longrightarrow>
            \<not> IsSpace (fst (DecodeLastRune core)) \<longrightarrow> TrimSpace core = core) \<and>
         (\<forall>a' b' c'. space_string a' \<longrightarrow> space_string b' \<longrightarrow>
            ReadString (CHR 0x0A) (incoming c') = Some (a' @ core @ b') \<longrightarrow>
            ReceiveMessage c' = ReceiveMessage c)"
proof (intro conjI allI impI)
  have t: "TrimSpace (a @ core @ b) = TrimSpace core"
    using assms(1,2) by (rule TrimSpace_padded)
  show r: "ReceiveMessage c =
           (let msg = TrimSpace core in
            if length msg < 2 then Inl TooShort
            else if take 1 msg \<noteq> header then Inl (InvalidHeaderError (take 1 msg))
            else if drop (length msg - 1) msg \<noteq> footer
              then Inl (InvalidFooterError (drop (length msg - 1) msg))
            else Inr (Decrypt (take (length msg - 1 - 1) (drop 1 msg))))"
    by (simp add: ReceiveMessage_def assms(3) t Let_def)
  fix a' b' :: string and c' :: conn
  assume "space_string a'" and "space_string b'"
    and l: "ReadString (CHR 0x0A) (incoming c') = Some (a' @ core @ b')"
  then have "TrimSpace (a' @ core @ b') = TrimSpace core"
    by (simp add: TrimSpace_padded)
  with l have "ReceiveMessage c' =
           (let msg = TrimSpace core in
            if length msg < 2 then Inl TooShort
            else if take 1 msg \<noteq> header then Inl (InvalidHeaderError (take 1 msg))
            else if drop (length msg - 1) msg \<noteq> footer
              then Inl (InvalidFooterError (drop (length msg - 1) msg))
            else Inr (Decrypt (take (length msg - 1 - 1) (drop 1 msg))))"
    by (simp add: ReceiveMessage_def Let_def)
  with r show "ReceiveMessage c' = ReceiveMessage c" by simp
next
  assume "core \<noteq> []" "\<not> IsSpace (fst (DecodeRune core))"
    "\<not> IsSpace (fst (DecodeLastRune core))"
  then show "TrimSpace core = core" by (rule TrimSpace_unchanged)
qed

theorem ReceiveMessage_ignores_surrounding_space_witness:
  "space_string [CHR 0xC2, CHR 0xA0, CHR 0x20] \<and> space_string [CHR 0x20, CHR 0x0D, CHR 0x0A] \<and>
   space_string [] \<and> space_string [CHR 0x0A] \<and>
   ReceiveMessage
     \<lparr>incoming = [CHR 0xC2, CHR 0xA0, CHR 0x20] @ ''x'' @ [CHR 0x20, CHR 0x0D, CHR 0x0A],
      outgoing = [], writable = True\<rparr> = Inl TooShort \<and>
   TrimSpace (header @ ''urfn'' @ footer) = header @ ''urfn'' @ footer \<and>
   ReceiveMessage
     \<lparr>incoming = [CHR 0xC2, CHR 0xA0, CHR 0x20] @ (header @ ''urfn'' @ footer) @
        [CHR 0x20, CHR 0x0D, CHR 0x0A], outgoing = [], writable = True\<rparr> =
     Inl (InvalidHeaderError [CHR 0xE2]) \<and>
   ReceiveMessage
     \<lparr>incoming = [] @ (header @ ''urfn'' @ footer) @ [CHR 0x0A], outgoing = [],
      writable = True\<rparr> =
   ReceiveMessage
     \<lparr>incoming = [CHR 0xC2, CHR 0xA0, CHR 0x20] @ (header @ ''urfn'' @ footer) @
        [CHR 0x20, CHR 0x0D, CHR 0x0A], outgoing = [], writable = True\<rparr>"
proof -
  let ?a = "[CHR 0xC2, CHR 0xA0, CHR 0x20]"
  let ?b = "[CHR 0x20, CHR 0x0D, CHR 0x0A]"
  let ?core = "header @ ''urfn'' @ footer"
  let ?x = "\<lparr>incoming = ?a @ ''x'' @ ?b, outgoing = [], writable = True\<rparr>"
  let ?c = "\<lparr>incoming = ?a @ ?core @ ?b, outgoing = [], writable = True\<rparr>"
  let ?c' = "\<lparr>incoming = [] @ ?core @ [CHR 0x0A], outgoing = [], writable = True\<rparr>"
  have s1: "space_string ?a" and s2: "space_string ?b" and s3: "space_string []"
    and s4: "space_string [CHR 0x0A]"
    by code_simp+
  have rx: "ReadString (CHR 0x0A) (incoming ?x) = Some (?a @ ''x'' @ ?b)" by code_simp
  have r1: "ReadString (CHR 0x0A) (incoming ?c) = Some (?a @ ?core @ ?b)" by code_simp
  have r2: "ReadString (CHR 0x0A) (incoming ?c') = Some ([] @ ?core @ [CHR 0x0A])"
    by code_simp
  note at_x = ReceiveMessage_ignores_surrounding_space [OF s1 s2 rx]
  note at_c = ReceiveMessage_ignores_surrounding_space [OF s1 s2 r1]
  have nx: "''x'' \<noteq> []" "\<not> IsSpace (fst (DecodeRune ''x''))"
    "\<not> IsSpace (fst (DecodeLastRune ''x''))"
    by code_simp+
  have tx: "TrimSpace ''x'' = ''x''"
    by (rule at_x [THEN conjunct2, THEN conjunct1, THEN mp, THEN mp, THEN mp, OF nx])
  have x: "ReceiveMessage ?x = Inl TooShort"
    using at_x [THEN conjunct1] by (simp add: tx)
  have nc: "?core \<noteq> []" "\<not> IsSpace (fst (DecodeRune ?core))"
    "\<not> IsSpace (fst (DecodeLastRune ?core))"
    by code_simp+
  have tc: "TrimSpace ?core = ?core"
    by (rule at_c [THEN conjunct2, THEN conjunct1, THEN mp, THEN mp, THEN mp, OF nc])
  have hd1: "take 1 ?core = [CHR 0xE2]" by (simp add: header_def)
  have c: "ReceiveMessage ?c = Inl (InvalidHeaderError [CHR 0xE2])"
    using at_c [THEN conjunct1] unfolding tc Let_def hd1 by (simp add: header_def)
  have e: "ReceiveMessage ?c' = ReceiveMessage ?c"
    by (rule at_c [THEN conjunct2, THEN conjunct2, rule_format, OF s3 s4 r2])
  from s1 s2 s3 s4 x tc c e show ?thesis by (intro conjI)
qed

end
